theory Spec2Isabelle
  imports Complex_Main "HOL-Library.Signed_Division"
begin

section \<open>Errors thrown by the program\<close>

text \<open>
  Every \<^verbatim>\<open>throw\<close> of \<^verbatim>\<open>main.js\<close> and every exception the JavaScript engine raises
  in the modelled functions is a value of \<open>error\<close>:
  \<^item> \<open>InvalidDigitChar c\<close>: \<^verbatim>\<open>throw new Error(`Invalid digit '${ch}'`)\<close> in \<^verbatim>\<open>charToDigit\<close>;
  \<^item> \<open>InvalidBase b\<close>: \<^verbatim>\<open>throw new Error(`Base ${b} not supported. ...`)\<close>;
  \<^item> \<open>DigitOutOfRange c b\<close>: \<^verbatim>\<open>throw new Error(`Digit '${ch}' not valid for base ${b}`)\<close>;
  \<^item> \<open>DivisionByZero\<close>: the \<^verbatim>\<open>RangeError: Division by zero\<close> that BigInt \<^verbatim>\<open>/\<close> raises;
  \<^item> \<open>TypeError\<close>: the engine's \<^verbatim>\<open>TypeError\<close> on reading a property of \<^verbatim>\<open>undefined\<close>.
  The first check of \<^verbatim>\<open>parseBigIntFromBase\<close> (\<^verbatim>\<open>typeof str !== 'string'\<close>) has no branch:
  the model's argument is a string by its type.
\<close>

datatype error =
    InvalidDigitChar char
  | InvalidBase int
  | DigitOutOfRange char int
  | DivisionByZero
  | TypeError

section \<open>Fraction arithmetic (the closures of \<^verbatim>\<open>solveLinearEquations\<close>)\<close>

text \<open>\<^verbatim>\<open>{ num, den }\<close>: two BigInts. The objects are never mutated, so they are values.\<close>

record fraction =
  num :: int
  den :: int

text \<open>\<^verbatim>\<open>const makeFraction = (num, den = 1n) => ({ num, den })\<close>, called with one argument.\<close>

definition makeFraction :: "int \<Rightarrow> fraction" where
  "makeFraction v = \<lparr>num = v, den = 1\<rparr>"

text \<open>
  BigInt \<^verbatim>\<open>%\<close> takes the sign of the dividend (\<open>smod\<close>) and BigInt \<^verbatim>\<open>/\<close> truncates
  towards zero (\<open>sdiv\<close>); \<^verbatim>\<open>/\<close> by \<^verbatim>\<open>0n\<close> raises a RangeError. In \<^verbatim>\<open>gcd\<close> the
  divisor of \<^verbatim>\<open>%\<close> is never \<^verbatim>\<open>0n\<close>: the test \<^verbatim>\<open>b === 0n\<close> comes first.
\<close>

function gcd_big :: "int \<Rightarrow> int \<Rightarrow> int" where
  "gcd_big a b = (if b = 0 then a else gcd_big b (a smod b))"
  by pat_completeness auto
termination
proof (relation "measure (\<lambda>(a, b). nat \<bar>b\<bar>)")
  show "wf (measure (\<lambda>(a, b). nat \<bar>b\<bar>))" by simp
next
  fix a b :: int
  assume "b \<noteq> 0"
  then have "a smod b \<in> {- \<bar>b\<bar> + 1..\<bar>b\<bar> - 1}" by (rule smod_int_range)
  then have "\<bar>a smod b\<bar> < \<bar>b\<bar>" by auto
  then show "((b, a smod b), (a, b)) \<in> measure (\<lambda>(a, b). nat \<bar>b\<bar>)" by simp
qed

declare gcd_big.simps [simp del]

definition abs_big :: "int \<Rightarrow> int" where
  "abs_big x = (if x < 0 then - x else x)"

definition div_big :: "int \<Rightarrow> int \<Rightarrow> error + int" where
  "div_big a b = (if b = 0 then Inl DivisionByZero else Inr (a sdiv b))"

text \<open>
  \<^verbatim>\<open>simplify\<close>: the numerator's quotient is computed first, so a zero \<open>g\<close> raises there.
\<close>

definition simplify :: "fraction \<Rightarrow> error + fraction" where
  "simplify f =
     (let g0 = gcd_big (abs_big (num f)) (abs_big (den f));
          g = (if den f < 0 then - g0 else g0)
      in case div_big (num f) g of
           Inl e \<Rightarrow> Inl e
         | Inr n \<Rightarrow> (case div_big (den f) g of
                      Inl e \<Rightarrow> Inl e
                    | Inr d \<Rightarrow> Inr \<lparr>num = n, den = d\<rparr>))"

definition add :: "fraction \<Rightarrow> fraction \<Rightarrow> error + fraction" where
  "add a b = simplify \<lparr>num = num a * den b + num b * den a, den = den a * den b\<rparr>"

definition subtract :: "fraction \<Rightarrow> fraction \<Rightarrow> error + fraction" where
  "subtract a b = simplify \<lparr>num = num a * den b - num b * den a, den = den a * den b\<rparr>"

definition multiply :: "fraction \<Rightarrow> fraction \<Rightarrow> error + fraction" where
  "multiply a b = simplify \<lparr>num = num a * num b, den = den a * den b\<rparr>"

definition divide_frac :: "fraction \<Rightarrow> fraction \<Rightarrow> error + fraction" where
  "divide_frac a b = simplify \<lparr>num = num a * den b, den = den a * num b\<rparr>"

text \<open>The canonical form of the specification: lowest terms, positive denominator.\<close>

definition canonical :: "fraction \<Rightarrow> bool" where
  "canonical f \<longleftrightarrow> gcd \<bar>num f\<bar> \<bar>den f\<bar> = 1 \<and> 0 < den f"

text \<open>The rational number a fraction denotes (meaningful when the denominator is not zero).\<close>

definition fval :: "fraction \<Rightarrow> rat" where
  "fval f = of_int (num f) / of_int (den f)"

section \<open>Base decoder\<close>

text \<open>
  A JavaScript string is modelled as a \<open>string\<close>: a list of \<open>char\<close>s, each one code
  point below 256 (Latin-1), which \<^verbatim>\<open>for (const ch of s)\<close> visits one by one.
  Code points from 256 on are outside the model.

  \<^verbatim>\<open>ch.toLowerCase()\<close> on such a character: \<^verbatim>\<open>A\<close>-\<^verbatim>\<open>Z\<close> and the accented capitals
  192-214 and 216-222 move up by 32, every other character is unchanged.
\<close>

definition toLowerCase :: "char \<Rightarrow> char" where
  "toLowerCase ch =
     (let n = (of_char ch :: nat)
      in if (65 \<le> n \<and> n \<le> 90) \<or> (192 \<le> n \<and> n \<le> 214) \<or> (216 \<le> n \<and> n \<le> 222)
         then char_of (n + 32) else ch)"

text \<open>
  \<^verbatim>\<open>charToDigit\<close>: the comparisons \<^verbatim>\<open>ch >= '0'\<close> etc. compare one-character strings,
  that is, character codes; \<open>48\<close> is \<^verbatim>\<open>'0'\<close>, \<open>57\<close> is \<^verbatim>\<open>'9'\<close>, \<open>97\<close> is \<^verbatim>\<open>'a'\<close>
  and \<open>122\<close> is \<^verbatim>\<open>'z'\<close>.
\<close>

definition charToDigit :: "char \<Rightarrow> error + int" where
  "charToDigit ch =
     (if 48 \<le> (of_char ch :: nat) \<and> (of_char ch :: nat) \<le> 57 then Inr (of_char ch - 48)
      else let lower = toLowerCase ch
           in if 97 \<le> (of_char lower :: nat) \<and> (of_char lower :: nat) \<le> 122
              then Inr (of_char lower - 87)
              else Inl (InvalidDigitChar ch))"

text \<open>
  \<^verbatim>\<open>str.trim()\<close> removes white space and line terminators from both ends; below 256
  these are the codes 9 to 13, 32 (space) and 160 (no-break space).
\<close>

definition isWhiteSpace :: "char \<Rightarrow> bool" where
  "isWhiteSpace ch \<longleftrightarrow> (of_char ch :: nat) \<in> {9, 10, 11, 12, 13, 32, 160}"

definition trim :: "string \<Rightarrow> string" where
  "trim s = rev (dropWhile isWhiteSpace (rev (dropWhile isWhiteSpace s)))"

text \<open>
  The loop \<^verbatim>\<open>for (const ch of s)\<close> with the accumulator \<^verbatim>\<open>result\<close>; \<open>b\<close> is the base,
  both the number \<^verbatim>\<open>b\<close> and the BigInt \<^verbatim>\<open>bigBase\<close>.
\<close>

fun accumulate :: "int \<Rightarrow> int \<Rightarrow> string \<Rightarrow> error + int" where
  "accumulate b result [] = Inr result"
| "accumulate b result (ch # s) =
     (case charToDigit ch of
        Inl e \<Rightarrow> Inl e
      | Inr digit \<Rightarrow>
          if digit \<ge> b then Inl (DigitOutOfRange ch b)
          else accumulate b (result * b + digit) s)"

text \<open>
  \<^verbatim>\<open>parseBigIntFromBase(str, base)\<close>. The base is an integer by its type
  (\<^verbatim>\<open>Number.isInteger(b)\<close> holds). \<^verbatim>\<open>s.startsWith('-')\<close> tests the first character of the
  trimmed string, \<^verbatim>\<open>s.slice(1)\<close> drops it.
\<close>

definition parseBigIntFromBase :: "string \<Rightarrow> int \<Rightarrow> error + int" where
  "parseBigIntFromBase str b =
     (if b < 2 \<or> b > 36 then Inl (InvalidBase b)
      else
        let s0 = trim str;
            negative = (s0 \<noteq> [] \<and> hd s0 = CHR ''-'');
            s = (if negative then tl s0 else s0)
        in case accumulate b 0 s of
             Inl e \<Rightarrow> Inl e
           | Inr result \<Rightarrow> Inr (if negative then - result else result))"

subsection \<open>Base-\<open>b\<close> notation, for the round trip\<close>

text \<open>
  Modelled from the spec: the base-\<open>b\<close> formatter of the decoder's round-trip property,
  which is no part of the program (the specification uses it to build test inputs only).
  By the specification's data model the digits \<open>0\<close> to \<open>35\<close> are written \<^verbatim>\<open>0-9\<close> and
  \<^verbatim>\<open>a-z\<close> in either case, and a digit string denotes the sum of its digits times the
  powers of the base, most significant digit first. A formatter is correct when its
  output denotes its argument.
\<close>

definition digit_table :: "(char \<times> nat) list" where
  "digit_table =
     zip ''0123456789abcdefghijklmnopqrstuvwxyz'' [0..<36] @
     zip ''ABCDEFGHIJKLMNOPQRSTUVWXYZ'' [10..<36]"

definition digit_value :: "char \<Rightarrow> nat option" where
  "digit_value ch = map_of digit_table ch"

definition positional :: "nat \<Rightarrow> nat list \<Rightarrow> nat" where
  "positional b ds = (\<Sum>i<length ds. ds ! i * b ^ (length ds - Suc i))"

definition denotes :: "nat \<Rightarrow> string \<Rightarrow> nat \<Rightarrow> bool" where
  "denotes b s v \<longleftrightarrow>
     (\<exists>ds. map digit_value s = map Some ds \<and> list_all (\<lambda>d. d < b) ds \<and> positional b ds = v)"

definition correct_formatter :: "(nat \<Rightarrow> nat \<Rightarrow> string) \<Rightarrow> bool" where
  "correct_formatter enc \<longleftrightarrow> (\<forall>v b. 2 \<le> b \<and> b \<le> 36 \<longrightarrow> denotes b (enc v b) v)"

text \<open>
  One such formatter, the one of \<^verbatim>\<open>BigInt.prototype.toString(radix)\<close>: lower-case
  digits, no leading zero.
\<close>

definition digit_char :: "nat \<Rightarrow> char" where
  "digit_char d = ''0123456789abcdefghijklmnopqrstuvwxyz'' ! d"

function encode :: "nat \<Rightarrow> nat \<Rightarrow> string" where
  "encode v b = (if b < 2 \<or> v < b then [digit_char v] else encode (v div b) b @ [digit_char (v mod b)])"
  by pat_completeness auto
termination
  by (relation "measure (\<lambda>(v, b). v)") auto

declare encode.simps [simp del]

text \<open>A valid digit string of base \<open>b\<close>: every character is a digit of value below \<open>b\<close>.\<close>

definition valid_digits :: "nat \<Rightarrow> string \<Rightarrow> bool" where
  "valid_digits b s \<longleftrightarrow>
     list_all (\<lambda>ch. case digit_value ch of None \<Rightarrow> False | Some d \<Rightarrow> d < b) s"

section \<open>Exact linear system solver\<close>

text \<open>
  The working matrix \<^verbatim>\<open>mat\<close> of \<^verbatim>\<open>solveLinearEquations\<close>: an array of rows, each an array
  of fractions. Its rows are fresh arrays (built by \<^verbatim>\<open>row.map\<close>), no two of them the same
  object, so the matrix is a list of lists here; the store-level model further down
  keeps the arrays in a heap and is shown to compute the same.

  Reading \<^verbatim>\<open>mat[r][c]\<close> past the end of a row gives \<^verbatim>\<open>undefined\<close> (\<open>None\<close>); the
  program fails with a TypeError only where it reads \<^verbatim>\<open>.num\<close> or \<^verbatim>\<open>.den\<close> of it. The row
  index \<open>r\<close> is always below \<^verbatim>\<open>mat.length\<close> in the program.
\<close>

type_synonym grid = "fraction list list"

definition cell :: "grid \<Rightarrow> nat \<Rightarrow> nat \<Rightarrow> fraction option" where
  "cell mat r c = (if r < length mat \<and> c < length (mat ! r) then Some (mat ! r ! c) else None)"

text \<open>
  \<^verbatim>\<open>mat[r][c] = v\<close>. Every such assignment of the program follows a successful read of
  the same element, so the index is in range and the array is never extended.
\<close>

definition setCell :: "grid \<Rightarrow> nat \<Rightarrow> nat \<Rightarrow> fraction \<Rightarrow> grid" where
  "setCell mat r c v = mat[r := (mat ! r)[c := v]]"

text \<open>The arithmetic closures applied to operands that may be \<^verbatim>\<open>undefined\<close>.\<close>

definition simplify_u :: "fraction option \<Rightarrow> error + fraction" where
  "simplify_u f = (case f of None \<Rightarrow> Inl TypeError | Some x \<Rightarrow> simplify x)"

definition subtract_u :: "fraction option \<Rightarrow> fraction option \<Rightarrow> error + fraction" where
  "subtract_u a b =
     (case a of None \<Rightarrow> Inl TypeError
      | Some x \<Rightarrow> (case b of None \<Rightarrow> Inl TypeError | Some y \<Rightarrow> subtract x y))"

definition multiply_u :: "fraction option \<Rightarrow> fraction option \<Rightarrow> error + fraction" where
  "multiply_u a b =
     (case a of None \<Rightarrow> Inl TypeError
      | Some x \<Rightarrow> (case b of None \<Rightarrow> Inl TypeError | Some y \<Rightarrow> multiply x y))"

definition divide_u :: "fraction option \<Rightarrow> fraction option \<Rightarrow> error + fraction" where
  "divide_u a b =
     (case a of None \<Rightarrow> Inl TypeError
      | Some x \<Rightarrow> (case b of None \<Rightarrow> Inl TypeError | Some y \<Rightarrow> divide_frac x y))"

text \<open>
  The pivot search \<^verbatim>\<open>for (let r = col; r < n; r++)\<close>, over the rows still to visit:
  the first row with a nonzero numerator in column \<open>col\<close>, and \<open>col\<close> itself
  (the initial \<^verbatim>\<open>pivotRow\<close>) when the loop ends without a \<^verbatim>\<open>break\<close>.
\<close>

fun findPivot :: "grid \<Rightarrow> nat \<Rightarrow> nat list \<Rightarrow> error + nat" where
  "findPivot mat col [] = Inr col"
| "findPivot mat col (r # rs) =
     (case cell mat r col of
        None \<Rightarrow> Inl TypeError
      | Some f \<Rightarrow> if num f \<noteq> 0 then Inr r else findPivot mat col rs)"

text \<open>\<^verbatim>\<open>if (pivotRow !== col) [mat[col], mat[pivotRow]] = [mat[pivotRow], mat[col]]\<close>.\<close>

definition swapRows :: "grid \<Rightarrow> nat \<Rightarrow> nat \<Rightarrow> grid" where
  "swapRows mat col pivotRow =
     (if pivotRow \<noteq> col then mat[col := mat ! pivotRow, pivotRow := mat ! col] else mat)"

text \<open>
  \<^verbatim>\<open>for (let c = col; c < m; c++) mat[col][c] = divide(mat[col][c], pivotValue)\<close>;
  \<^verbatim>\<open>pivotValue\<close> was read before the loop and keeps its value when \<^verbatim>\<open>mat[col][col]\<close> is
  overwritten.
\<close>

fun normalizeRow :: "grid \<Rightarrow> nat \<Rightarrow> fraction option \<Rightarrow> nat list \<Rightarrow> error + grid" where
  "normalizeRow mat col pivotValue [] = Inr mat"
| "normalizeRow mat col pivotValue (c # cs) =
     (case divide_u (cell mat col c) pivotValue of
        Inl e \<Rightarrow> Inl e
      | Inr v \<Rightarrow> normalizeRow (setCell mat col c v) col pivotValue cs)"

text \<open>
  The inner elimination loop for one row \<open>r\<close>:
  \<^verbatim>\<open>mat[r][c] = subtract(mat[r][c], multiply(factor, mat[col][c]))\<close>. The product is
  evaluated before \<^verbatim>\<open>subtract\<close> is entered.
\<close>

fun eliminateRow :: "grid \<Rightarrow> nat \<Rightarrow> nat \<Rightarrow> fraction option \<Rightarrow> nat list \<Rightarrow> error + grid" where
  "eliminateRow mat r col factor [] = Inr mat"
| "eliminateRow mat r col factor (c # cs) =
     (case multiply_u factor (cell mat col c) of
        Inl e \<Rightarrow> Inl e
      | Inr p \<Rightarrow>
          (case subtract_u (cell mat r c) (Some p) of
             Inl e \<Rightarrow> Inl e
           | Inr v \<Rightarrow> eliminateRow (setCell mat r c v) r col factor cs))"

text \<open>
  The outer elimination loop \<^verbatim>\<open>for (let r = 0; r < n; r++)\<close>, skipping \<^verbatim>\<open>r === col\<close>;
  \<^verbatim>\<open>factor\<close> is read once per row.
\<close>

fun eliminateRows :: "grid \<Rightarrow> nat \<Rightarrow> nat \<Rightarrow> nat list \<Rightarrow> error + grid" where
  "eliminateRows mat m col [] = Inr mat"
| "eliminateRows mat m col (r # rs) =
     (if r = col then eliminateRows mat m col rs
      else case eliminateRow mat r col (cell mat r col) [col..<m] of
             Inl e \<Rightarrow> Inl e
           | Inr mat' \<Rightarrow> eliminateRows mat' m col rs)"

text \<open>The body of the loop over \<^verbatim>\<open>col\<close>.\<close>

definition pivotStep :: "nat \<Rightarrow> nat \<Rightarrow> grid \<Rightarrow> nat \<Rightarrow> error + grid" where
  "pivotStep n m mat col =
     (case findPivot mat col [col..<n] of
        Inl e \<Rightarrow> Inl e
      | Inr pivotRow \<Rightarrow>
          (let mat1 = swapRows mat col pivotRow;
               pivotValue = cell mat1 col col
           in (case normalizeRow mat1 col pivotValue [col..<m] of
                 Inl e \<Rightarrow> Inl e
               | Inr mat2 \<Rightarrow> eliminateRows mat2 m col [0..<n])))"

text \<open>\<^verbatim>\<open>for (let col = 0; col < n; col++)\<close>, over the columns still to process.\<close>

fun eliminationLoop :: "nat \<Rightarrow> nat \<Rightarrow> grid \<Rightarrow> nat list \<Rightarrow> error + grid" where
  "eliminationLoop n m mat [] = Inr mat"
| "eliminationLoop n m mat (col # cols) =
     (case pivotStep n m mat col of
        Inl e \<Rightarrow> Inl e
      | Inr mat' \<Rightarrow> eliminationLoop n m mat' cols)"

text \<open>
  \<^verbatim>\<open>mat.map((row) => simplify(row[m - 1]))\<close>: rows in order, the first exception ends the
  call. \<^verbatim>\<open>row[-1]\<close> (when \<open>m\<close> is 0) is \<^verbatim>\<open>undefined\<close>.
\<close>

definition lastColumn :: "nat \<Rightarrow> fraction list \<Rightarrow> fraction option" where
  "lastColumn m row = (if 0 < m \<and> m - 1 < length row then Some (row ! (m - 1)) else None)"

fun extractSolution :: "nat \<Rightarrow> grid \<Rightarrow> error + fraction list" where
  "extractSolution m [] = Inr []"
| "extractSolution m (row # rows) =
     (case simplify_u (lastColumn m row) of
        Inl e \<Rightarrow> Inl e
      | Inr f \<Rightarrow>
          (case extractSolution m rows of
             Inl e \<Rightarrow> Inl e
           | Inr fs \<Rightarrow> Inr (f # fs)))"

text \<open>
  \<^verbatim>\<open>solveLinearEquations(matrix)\<close> on a matrix of BigInts. \<^verbatim>\<open>matrix[0].length\<close> raises a
  TypeError when the matrix has no row.
\<close>

definition solveLinearEquations :: "int list list \<Rightarrow> error + fraction list" where
  "solveLinearEquations matrix =
     (case matrix of
        [] \<Rightarrow> Inl TypeError
      | row0 # _ \<Rightarrow>
          (let n = length matrix;
               m = length row0;
               mat = map (map makeFraction) matrix
           in (case eliminationLoop n m mat [0..<n] of
                 Inl e \<Rightarrow> Inl e
               | Inr mat' \<Rightarrow> extractSolution m mat')))"

subsection \<open>Notions used to state the solver's properties\<close>

text \<open>
  A working matrix of \<open>n\<close> rows and \<open>m\<close> columns whose fractions all have a nonzero
  denominator, and the rational number in row \<open>r\<close>, column \<open>c\<close>.
\<close>

definition wf_grid :: "nat \<Rightarrow> nat \<Rightarrow> grid \<Rightarrow> bool" where
  "wf_grid n m mat \<longleftrightarrow>
     length mat = n \<and> (\<forall>r<n. length (mat ! r) = m \<and> (\<forall>c<m. den (mat ! r ! c) \<noteq> 0))"

definition entry :: "grid \<Rightarrow> nat \<Rightarrow> nat \<Rightarrow> rat" where
  "entry mat r c = fval (mat ! r ! c)"

text \<open>
  The input: \<open>n\<close> equations in \<open>n\<close> unknowns, each row the \<open>n\<close> coefficients followed by
  the constant term. The system is non-singular when the homogeneous system of its
  coefficients has the zero vector as its only rational solution.
\<close>

definition augmented :: "nat \<Rightarrow> int list list \<Rightarrow> bool" where
  "augmented n matrix \<longleftrightarrow> length matrix = n \<and> list_all (\<lambda>row. length row = n + 1) matrix"

definition nonsingular :: "int list list \<Rightarrow> bool" where
  "nonsingular matrix \<longleftrightarrow>
     (\<forall>x :: nat \<Rightarrow> rat.
        (\<forall>i<length matrix. (\<Sum>j<length matrix. of_int (matrix ! i ! j) * x j) = 0)
        \<longrightarrow> (\<forall>j<length matrix. x j = 0))"

text \<open>\<open>xs\<close> solves the system: every equation holds exactly.\<close>

definition solves :: "int list list \<Rightarrow> fraction list \<Rightarrow> bool" where
  "solves matrix xs \<longleftrightarrow>
     (\<forall>i<length matrix.
        (\<Sum>j<length matrix. of_int (matrix ! i ! j) * fval (xs ! j)) =
        of_int (matrix ! i ! length matrix))"

text \<open>
  The effect of one pass of the loop over \<open>col\<close> on the matrix of rational values, with
  \<open>p\<close> the pivot row found: rows \<open>col\<close> and \<open>p\<close> change places, row \<open>col\<close> is divided by
  its pivot from column \<open>col\<close> on, and every other row loses its multiple of row \<open>col\<close>.
\<close>

definition swap_abs :: "(nat \<Rightarrow> nat \<Rightarrow> rat) \<Rightarrow> nat \<Rightarrow> nat \<Rightarrow> nat \<Rightarrow> nat \<Rightarrow> rat" where
  "swap_abs A col p r c = A (if r = col then p else if r = p then col else r) c"

definition step_abs :: "(nat \<Rightarrow> nat \<Rightarrow> rat) \<Rightarrow> nat \<Rightarrow> nat \<Rightarrow> nat \<Rightarrow> nat \<Rightarrow> rat" where
  "step_abs A col p r c =
     (if c < col then swap_abs A col p r c
      else if r = col then swap_abs A col p col c / swap_abs A col p col col
      else swap_abs A col p r c -
           swap_abs A col p r col * (swap_abs A col p col c / swap_abs A col p col col))"

text \<open>
  Columns \<open>0\<close> to \<open>k - 1\<close> of a matrix are unit vectors; and a matrix of \<open>n\<close> rows and \<open>m\<close>
  columns annihilates a vector \<open>x\<close>. Row operations keep the set of annihilated vectors.
\<close>

definition unit_cols :: "(nat \<Rightarrow> nat \<Rightarrow> rat) \<Rightarrow> nat \<Rightarrow> nat \<Rightarrow> bool" where
  "unit_cols A n k \<longleftrightarrow> (\<forall>j<k. \<forall>i<n. A i j = (if i = j then 1 else 0))"

definition annihilates :: "(nat \<Rightarrow> nat \<Rightarrow> rat) \<Rightarrow> nat \<Rightarrow> nat \<Rightarrow> (nat \<Rightarrow> rat) \<Rightarrow> bool" where
  "annihilates A n m x \<longleftrightarrow> (\<forall>i<n. (\<Sum>j<m. A i j * x j) = 0)"

section \<open>The solver on a store of arrays\<close>

text \<open>
  JavaScript arrays are objects: \<^verbatim>\<open>matrix\<close> is a reference to an array of references to
  the row arrays, and the assignments \<^verbatim>\<open>mat[r][c] = ...\<close> and the row exchange update
  arrays in place. To state what the call does to the caller's arrays, the solver is
  modelled a second time on an explicit store: a list of arrays, an address being an
  index into it, and allocation appending a new array (addresses are never reused). An
  array holds row references, BigInts or fractions. The fraction objects themselves are
  never mutated or compared by identity and stay values.

  The argument is expected to be an array of arrays of BigInts; on a store where it is
  anything else the model answers \<open>TypeError\<close>, without claiming that the program does.
\<close>

datatype array = RowArray "nat list" | IntArray "int list" | FracArray "fraction list"

type_synonym store = "array list"

definition alloc :: "store \<Rightarrow> array \<Rightarrow> store \<times> nat" where
  "alloc h a = (h @ [a], length h)"

definition rowRefs :: "store \<Rightarrow> nat \<Rightarrow> nat list option" where
  "rowRefs h a = (if a < length h then (case h ! a of RowArray rs \<Rightarrow> Some rs | _ \<Rightarrow> None) else None)"

definition intRow :: "store \<Rightarrow> nat \<Rightarrow> int list option" where
  "intRow h a = (if a < length h then (case h ! a of IntArray xs \<Rightarrow> Some xs | _ \<Rightarrow> None) else None)"

definition fracRow :: "store \<Rightarrow> nat \<Rightarrow> fraction list option" where
  "fracRow h a = (if a < length h then (case h ! a of FracArray fs \<Rightarrow> Some fs | _ \<Rightarrow> None) else None)"

definition arrayLength :: "store \<Rightarrow> nat \<Rightarrow> nat option" where
  "arrayLength h a =
     (if a < length h
      then Some (case h ! a of RowArray rs \<Rightarrow> length rs | IntArray xs \<Rightarrow> length xs | FracArray fs \<Rightarrow> length fs)
      else None)"

text \<open>
  \<^verbatim>\<open>mat[r][c]\<close> and \<^verbatim>\<open>mat[r][c] = v\<close>, with \<open>mat\<close> the address of the working matrix.
  As before a read past the end gives \<^verbatim>\<open>undefined\<close>, and a write follows a read of the
  same element.
\<close>

definition cell_s :: "store \<Rightarrow> nat \<Rightarrow> nat \<Rightarrow> nat \<Rightarrow> fraction option" where
  "cell_s h mat r c =
     (case rowRefs h mat of
        None \<Rightarrow> None
      | Some rs \<Rightarrow>
          if r < length rs
          then (case fracRow h (rs ! r) of
                  None \<Rightarrow> None
                | Some row \<Rightarrow> if c < length row then Some (row ! c) else None)
          else None)"

definition setCell_s :: "store \<Rightarrow> nat \<Rightarrow> nat \<Rightarrow> nat \<Rightarrow> fraction \<Rightarrow> store" where
  "setCell_s h mat r c v =
     (case rowRefs h mat of
        None \<Rightarrow> h
      | Some rs \<Rightarrow>
          if r < length rs
          then (case fracRow h (rs ! r) of
                  None \<Rightarrow> h
                | Some row \<Rightarrow> h[rs ! r := FracArray (row[c := v])])
          else h)"

fun findPivot_s :: "store \<Rightarrow> nat \<Rightarrow> nat \<Rightarrow> nat list \<Rightarrow> error + nat" where
  "findPivot_s h mat col [] = Inr col"
| "findPivot_s h mat col (r # rs) =
     (case cell_s h mat r col of
        None \<Rightarrow> Inl TypeError
      | Some f \<Rightarrow> if num f \<noteq> 0 then Inr r else findPivot_s h mat col rs)"

text \<open>
  The exchange \<^verbatim>\<open>[mat[col], mat[pivotRow]] = [mat[pivotRow], mat[col]]\<close> swaps two
  references in the outer array; the rows themselves are not copied. (The temporary
  array of the destructuring is not kept in the store.)
\<close>

definition swapRows_s :: "store \<Rightarrow> nat \<Rightarrow> nat \<Rightarrow> nat \<Rightarrow> store" where
  "swapRows_s h mat col pivotRow =
     (if pivotRow \<noteq> col
      then (case rowRefs h mat of
              None \<Rightarrow> h
            | Some rs \<Rightarrow> h[mat := RowArray (rs[col := rs ! pivotRow, pivotRow := rs ! col])])
      else h)"

fun normalizeRow_s ::
  "store \<Rightarrow> nat \<Rightarrow> nat \<Rightarrow> fraction option \<Rightarrow> nat list \<Rightarrow> error option \<times> store" where
  "normalizeRow_s h mat col pivotValue [] = (None, h)"
| "normalizeRow_s h mat col pivotValue (c # cs) =
     (case divide_u (cell_s h mat col c) pivotValue of
        Inl e \<Rightarrow> (Some e, h)
      | Inr v \<Rightarrow> normalizeRow_s (setCell_s h mat col c v) mat col pivotValue cs)"

fun eliminateRow_s ::
  "store \<Rightarrow> nat \<Rightarrow> nat \<Rightarrow> nat \<Rightarrow> fraction option \<Rightarrow> nat list \<Rightarrow> error option \<times> store" where
  "eliminateRow_s h mat r col factor [] = (None, h)"
| "eliminateRow_s h mat r col factor (c # cs) =
     (case multiply_u factor (cell_s h mat col c) of
        Inl e \<Rightarrow> (Some e, h)
      | Inr p \<Rightarrow>
          (case subtract_u (cell_s h mat r c) (Some p) of
             Inl e \<Rightarrow> (Some e, h)
           | Inr v \<Rightarrow> eliminateRow_s (setCell_s h mat r c v) mat r col factor cs))"

fun eliminateRows_s ::
  "store \<Rightarrow> nat \<Rightarrow> nat \<Rightarrow> nat \<Rightarrow> nat list \<Rightarrow> error option \<times> store" where
  "eliminateRows_s h mat m col [] = (None, h)"
| "eliminateRows_s h mat m col (r # rs) =
     (if r = col then eliminateRows_s h mat m col rs
      else case eliminateRow_s h mat r col (cell_s h mat r col) [col..<m] of
             (Some e, h') \<Rightarrow> (Some e, h')
           | (None, h') \<Rightarrow> eliminateRows_s h' mat m col rs)"

text \<open>
  One pass of the loop over \<^verbatim>\<open>col\<close>. The third component is not a value of the program:
  it records the row exchange the pass performed, if any, as the pair
  \<open>(col, pivotRow)\<close>.
\<close>

definition pivotStep_s ::
  "store \<Rightarrow> nat \<Rightarrow> nat \<Rightarrow> nat \<Rightarrow> nat \<Rightarrow> error option \<times> store \<times> (nat \<times> nat) list" where
  "pivotStep_s h mat n m col =
     (case findPivot_s h mat col [col..<n] of
        Inl e \<Rightarrow> (Some e, h, [])
      | Inr pivotRow \<Rightarrow>
          (let h1 = swapRows_s h mat col pivotRow;
               swaps = (if pivotRow \<noteq> col then [(col, pivotRow)] else []);
               pivotValue = cell_s h1 mat col col
           in (case normalizeRow_s h1 mat col pivotValue [col..<m] of
                 (Some e, h2) \<Rightarrow> (Some e, h2, swaps)
               | (None, h2) \<Rightarrow>
                   (case eliminateRows_s h2 mat m col [0..<n] of
                      (e, h3) \<Rightarrow> (e, h3, swaps)))))"

fun eliminationLoop_s ::
  "store \<Rightarrow> nat \<Rightarrow> nat \<Rightarrow> nat \<Rightarrow> nat list \<Rightarrow> error option \<times> store \<times> (nat \<times> nat) list" where
  "eliminationLoop_s h mat n m [] = (None, h, [])"
| "eliminationLoop_s h mat n m (col # cols) =
     (case pivotStep_s h mat n m col of
        (Some e, h', swaps) \<Rightarrow> (Some e, h', swaps)
      | (None, h', swaps) \<Rightarrow>
          (case eliminationLoop_s h' mat n m cols of
             (e, h'', swaps') \<Rightarrow> (e, h'', swaps @ swaps')))"

text \<open>
  \<^verbatim>\<open>matrix.map((row) => row.map((v) => makeFraction(v)))\<close>: one fresh array of fractions
  per row, and the fresh outer array of their addresses (allocated last here; the program
  cannot observe the order in which fresh addresses are handed out).
\<close>

fun copyRows :: "store \<Rightarrow> nat list \<Rightarrow> (error + nat list) \<times> store" where
  "copyRows h [] = (Inr [], h)"
| "copyRows h (r # rs) =
     (case intRow h r of
        None \<Rightarrow> (Inl TypeError, h)
      | Some xs \<Rightarrow>
          (case alloc h (FracArray (map makeFraction xs)) of
             (h1, a) \<Rightarrow>
               (case copyRows h1 rs of
                  (Inl e, h2) \<Rightarrow> (Inl e, h2)
                | (Inr as, h2) \<Rightarrow> (Inr (a # as), h2))))"

text \<open>\<^verbatim>\<open>mat.map((row) => simplify(row[m - 1]))\<close>, over the row indices; it reads only.\<close>

fun extractSolution_s :: "store \<Rightarrow> nat \<Rightarrow> nat \<Rightarrow> nat list \<Rightarrow> error + fraction list" where
  "extractSolution_s h mat m [] = Inr []"
| "extractSolution_s h mat m (r # rs) =
     (case simplify_u (if 0 < m then cell_s h mat r (m - 1) else None) of
        Inl e \<Rightarrow> Inl e
      | Inr f \<Rightarrow>
          (case extractSolution_s h mat m rs of
             Inl e \<Rightarrow> Inl e
           | Inr fs \<Rightarrow> Inr (f # fs)))"

text \<open>
  \<^verbatim>\<open>solveLinearEquations(matrix)\<close> with \<open>matrix\<close> an address: the result is the address of
  the fresh array of solution fractions or the error raised, the store after the call,
  and the record of the row exchanges.
\<close>

definition solveLinearEquations_s ::
  "store \<Rightarrow> nat \<Rightarrow> (error + nat) \<times> store \<times> (nat \<times> nat) list" where
  "solveLinearEquations_s h matrix =
     (case rowRefs h matrix of
        None \<Rightarrow> (Inl TypeError, h, [])
      | Some rs \<Rightarrow>
          (case rs of
             [] \<Rightarrow> (Inl TypeError, h, [])
           | row0 # _ \<Rightarrow>
               (case arrayLength h row0 of
                  None \<Rightarrow> (Inl TypeError, h, [])
                | Some m \<Rightarrow>
                    (let n = length rs
                     in (case copyRows h rs of
                           (Inl e, h1) \<Rightarrow> (Inl e, h1, [])
                         | (Inr as, h1) \<Rightarrow>
                             (case alloc h1 (RowArray as) of
                                (h2, mat) \<Rightarrow>
                                  (case eliminationLoop_s h2 mat n m [0..<n] of
                                     (Some e, h3, swaps) \<Rightarrow> (Inl e, h3, swaps)
                                   | (None, h3, swaps) \<Rightarrow>
                                       (case extractSolution_s h3 mat m [0..<n] of
                                          Inl e \<Rightarrow> (Inl e, h3, swaps)
                                        | Inr xs \<Rightarrow>
                                            (case alloc h3 (FracArray xs) of
                                               (h4, res) \<Rightarrow> (Inr res, h4, swaps))))))))))"

subsection \<open>Notions used to state the store-level properties\<close>

text \<open>The store holds the integer matrix \<open>M\<close> at address \<open>a\<close>.\<close>

definition matrix_at :: "store \<Rightarrow> nat \<Rightarrow> int list list \<Rightarrow> bool" where
  "matrix_at h a M \<longleftrightarrow>
     (case rowRefs h a of None \<Rightarrow> False | Some rs \<Rightarrow> map (intRow h) rs = map Some M)"

text \<open>The outcome of a call as a value: the solution fractions behind the returned address.\<close>

definition outcome :: "store \<Rightarrow> error + nat \<Rightarrow> error + fraction list" where
  "outcome h r =
     (case r of
        Inl e \<Rightarrow> Inl e
      | Inr a \<Rightarrow> (case fracRow h a of None \<Rightarrow> Inl TypeError | Some xs \<Rightarrow> Inr xs))"

text \<open>
  The working matrix at address \<open>mat\<close> is the grid \<open>g\<close>, its rows stored at the distinct
  addresses \<open>rs\<close>.
\<close>

definition grid_at :: "store \<Rightarrow> nat \<Rightarrow> nat list \<Rightarrow> grid \<Rightarrow> bool" where
  "grid_at h mat rs g \<longleftrightarrow>
     rowRefs h mat = Some rs \<and> distinct rs \<and> mat \<notin> set rs \<and> map (fracRow h) rs = map Some g"

text \<open>The row exchanges of the list-level run, pass by pass.\<close>

definition swapOf :: "nat \<Rightarrow> grid \<Rightarrow> nat \<Rightarrow> (nat \<times> nat) list" where
  "swapOf n mat col =
     (case findPivot mat col [col..<n] of
        Inl e \<Rightarrow> []
      | Inr pivotRow \<Rightarrow> if pivotRow \<noteq> col then [(col, pivotRow)] else [])"

fun swapTrace :: "nat \<Rightarrow> nat \<Rightarrow> grid \<Rightarrow> nat list \<Rightarrow> (nat \<times> nat) list" where
  "swapTrace n m mat [] = []"
| "swapTrace n m mat (col # cols) =
     swapOf n mat col @
     (case pivotStep n m mat col of
        Inl e \<Rightarrow> []
      | Inr mat' \<Rightarrow> swapTrace n m mat' cols)"

text \<open>The row exchanges of the list-level run of \<open>solveLinearEquations\<close>.\<close>

definition solveSwaps :: "int list list \<Rightarrow> (nat \<times> nat) list" where
  "solveSwaps matrix =
     (case matrix of
        [] \<Rightarrow> []
      | row0 # _ \<Rightarrow>
          swapTrace (length matrix) (length row0) (map (map makeFraction) matrix)
            [0..<length matrix])"

text \<open>
  Two stores of the same size that agree on every address outside \<open>S\<close>.
\<close>

definition frame :: "store \<Rightarrow> store \<Rightarrow> nat set \<Rightarrow> bool" where
  "frame h h' S \<longleftrightarrow> length h' = length h \<and> (\<forall>p<length h. p \<notin> S \<longrightarrow> h' ! p = h ! p)"

section \<open>Properties of the fraction arithmetic\<close>

lemma gcd_big_nonneg: "0 \<le> a \<Longrightarrow> 0 \<le> b \<Longrightarrow> gcd_big a b = gcd a b"
proof (induction a b rule: gcd_big.induct)
  case (1 a b)
  show ?case
  proof (cases "b = 0")
    case True
    with "1.prems" show ?thesis by (simp add: gcd_big.simps)
  next
    case False
    with "1.prems" have bpos: "0 < b" by simp
    have sm: "a smod b = a mod b"
      using "1.prems"(1) bpos by (simp add: signed_modulo_int_def sgn_if)
    have "gcd_big a b = gcd_big b (a mod b)"
      using False sm by (simp add: gcd_big.simps [of a b])
    also have "\<dots> = gcd b (a mod b)"
      using "1.IH" [OF False] "1.prems"(2) bpos sm by simp
    also have "\<dots> = gcd a b"
      by (rule gcd_red_int [symmetric])
    finally show ?thesis .
  qed
qed

lemma gcd_big_abs: "gcd_big (abs_big p) (abs_big q) = gcd p q"
proof -
  have "gcd_big (abs_big p) (abs_big q) = gcd (abs_big p) (abs_big q)"
    by (rule gcd_big_nonneg) (simp_all add: abs_big_def)
  also have "\<dots> = gcd \<bar>p\<bar> \<bar>q\<bar>"
    by (simp add: abs_big_def abs_if)
  finally show ?thesis by simp
qed


lemma sdiv_exact:
  fixes p g :: int
  assumes "g dvd p"
  shows "p sdiv g = p div g"
proof (cases "g = 0")
  case True
  then show ?thesis by simp
next
  case False
  from assms obtain k where k: "p = g * k" by (auto simp: dvd_def)
  have "p sdiv g = sgn (g * k) * sgn g * (\<bar>g * k\<bar> div \<bar>g\<bar>)"
    by (simp add: signed_divide_int_def k)
  also have "\<dots> = (sgn g * sgn g) * (sgn k * \<bar>k\<bar>)"
    using False by (simp add: sgn_mult abs_mult)
  also have "\<dots> = k"
    using False by (simp add: sgn_if)
  also have "\<dots> = p div g"
    using False by (simp add: k)
  finally show ?thesis .
qed

lemma simplify_value:
  assumes "den f \<noteq> 0"
  shows "simplify f = Inr \<lparr>num = sgn (den f) * (num f div gcd (num f) (den f)),
                           den = \<bar>den f\<bar> div gcd (num f) (den f)\<rparr>"
proof -
  let ?g = "gcd (num f) (den f)"
  have gpos: "0 < ?g" using assms by simp
  have d1: "num f sdiv ?g = num f div ?g" by (rule sdiv_exact) simp
  have d2: "den f sdiv ?g = den f div ?g" by (rule sdiv_exact) simp
  have neg: "p sdiv (- ?g) = - (p div ?g)" if "?g dvd p" for p
  proof -
    have "p sdiv (- ?g) = p div (- ?g)" using that by (intro sdiv_exact) simp
    also have "\<dots> = - (p div ?g)" using that by (rule dvd_div_neg)
    finally show ?thesis .
  qed
  have d3: "num f sdiv (- ?g) = - (num f div ?g)" by (rule neg) simp
  have d4: "den f sdiv (- ?g) = - (den f div ?g)" by (rule neg) simp
  show ?thesis
  proof (cases "den f < 0")
    case True
    then show ?thesis using gpos d3 d4
      by (simp add: simplify_def gcd_big_abs div_big_def Let_def sgn_if abs_if dvd_neg_div)
  next
    case False
    then show ?thesis using gpos d1 d2 assms
      by (simp add: simplify_def gcd_big_abs div_big_def Let_def sgn_if abs_if)
  qed
qed

lemma simplify_canonical:
  assumes "den f \<noteq> 0"
  shows "\<exists>r. simplify f = Inr r \<and> canonical r \<and> fval r = fval f"
proof -
  let ?g = "gcd (num f) (den f)"
  let ?r = "\<lparr>num = sgn (den f) * (num f div ?g), den = \<bar>den f\<bar> div ?g\<rparr>"
  have gpos: "0 < ?g" using assms by simp
  have cop: "coprime (num f div ?g) (den f div ?g)"
    using assms by (intro div_gcd_coprime) simp
  have absd: "\<bar>den f\<bar> div ?g = \<bar>den f div ?g\<bar>"
    using gpos by (simp add: abs_div)
  have "gcd \<bar>num ?r\<bar> \<bar>den ?r\<bar> = gcd (num f div ?g) (den f div ?g)"
    using assms by (simp add: absd abs_mult abs_sgn_eq)
  also have "\<dots> = 1" using cop by (simp add: coprime_iff_gcd_eq_1)
  finally have c1: "gcd \<bar>num ?r\<bar> \<bar>den ?r\<bar> = 1" .
  have "den f div ?g \<noteq> 0"
    using assms gpos by (simp add: dvd_div_eq_0_iff)
  then have c2: "0 < den ?r" by (simp add: absd)
  obtain n' d' where n': "num f = ?g * n'" and d': "den f = ?g * d'"
    by (metis dvd_def gcd_dvd1 gcd_dvd2)
  have d'0: "d' \<noteq> 0" using assms d' by auto
  have nd: "num f div ?g = n'" "den f div ?g = d'"
    using gpos n' d' by (metis less_irrefl nonzero_mult_div_cancel_left)+
  have sg: "sgn (den f) = sgn d'"
    using gpos d' by (metis mult.left_neutral sgn_1_pos sgn_mult)
  have "fval ?r = of_int (sgn d' * n') / of_int \<bar>d'\<bar>"
    by (simp add: fval_def absd nd sg)
  also have "\<dots> = of_int n' / of_int d'"
    using d'0 by (simp add: sgn_if abs_if)
  also have "\<dots> = (of_int ?g * of_int n') / (of_int ?g * (of_int d' :: rat))"
  proof -
    have "(of_int ?g :: rat) \<noteq> 0" using gpos by (simp only: of_int_eq_0_iff)
    then show ?thesis by (rule nonzero_mult_divide_mult_cancel_left [symmetric])
  qed
  also have "\<dots> = of_int (?g * n') / of_int (?g * d')"
    by (simp only: of_int_mult)
  also have "\<dots> = fval f"
    using n' d' by (simp add: fval_def)
  finally have c3: "fval ?r = fval f" .
  show ?thesis
    using simplify_value [OF assms] c1 c2 c3 by (simp add: canonical_def)
qed

lemma gcd_big_zero: "gcd_big a 0 = a"
  by (simp add: gcd_big.simps)

lemma simplify_zero_den:
  "simplify \<lparr>num = p, den = 0\<rparr> =
     (if p = 0 then Inl DivisionByZero else Inr \<lparr>num = sgn p, den = 0\<rparr>)"
  by (simp add: simplify_def gcd_big_zero abs_big_def div_big_def signed_divide_int_def sgn_if)

subsection \<open>Division by a zero fraction and the canonical form\<close>

text \<open>
  C3 (as stated: for every \<open>a\<close> and every \<open>b\<close> with zero numerator, \<open>divide(a, b)\<close> fails
  with DivisionByZero). The code has no test of the divisor: \<open>divide(1/1, 0/1)\<close> returns
  the object \<open>{num: 1n, den: 0n}\<close>.
\<close>

theorem divide_by_zero_returns_counterexample:
  "num \<lparr>num = 0, den = 1\<rparr> = 0 \<and>
   divide_frac \<lparr>num = 1, den = 1\<rparr> \<lparr>num = 0, den = 1\<rparr> = Inr \<lparr>num = 1, den = 0\<rparr>"
  by (simp add: divide_frac_def simplify_zero_den)

text \<open>
  C3 (amended): when \<open>b\<close> has zero numerator, \<open>divide(a, b)\<close> raises the engine's
  division-by-zero RangeError exactly when \<open>a.num * b.den\<close> is zero too (then
  \<open>simplify\<close> divides by a zero gcd); otherwise it returns the object whose numerator is
  the sign of \<open>a.num * b.den\<close> and whose denominator is \<open>0n\<close>.
\<close>

theorem divide_zero_numerator:
  assumes "num b = 0"
  shows "divide_frac a b =
           (if num a * den b = 0 then Inl DivisionByZero
            else Inr \<lparr>num = sgn (num a * den b), den = 0\<rparr>)"
  using assms by (simp add: divide_frac_def simplify_zero_den)

theorem divide_zero_numerator_witness:
  "num \<lparr>num = 0, den = 3\<rparr> = 0 \<and>
   divide_frac \<lparr>num = 0, den = 7\<rparr> \<lparr>num = 0, den = 3\<rparr> = Inl DivisionByZero \<and>
   divide_frac \<lparr>num = - 5, den = 7\<rparr> \<lparr>num = 0, den = 3\<rparr> = Inr \<lparr>num = - 1, den = 0\<rparr>"
  using divide_zero_numerator [of "\<lparr>num = 0, den = 3\<rparr>" "\<lparr>num = 0, den = 7\<rparr>"]
        divide_zero_numerator [of "\<lparr>num = 0, den = 3\<rparr>" "\<lparr>num = - 5, den = 7\<rparr>"]
  by simp

text \<open>
  C4 (as stated: every operation, \<open>divide\<close> included, returns the canonical form for all
  inputs with nonzero denominator). \<open>divide((-3)/2, 0/5)\<close> returns \<open>{num: -1n, den: 0n}\<close>,
  whose denominator is not positive.
\<close>

theorem divide_not_canonical_counterexample:
  "den \<lparr>num = - 3, den = 2\<rparr> \<noteq> 0 \<and> den \<lparr>num = 0, den = 5\<rparr> \<noteq> 0 \<and>
   divide_frac \<lparr>num = - 3, den = 2\<rparr> \<lparr>num = 0, den = 5\<rparr> = Inr \<lparr>num = - 1, den = 0\<rparr> \<and>
   \<not> canonical \<lparr>num = - 1, den = 0\<rparr>"
  by (simp add: divide_frac_def simplify_zero_den canonical_def)

text \<open>
  C4 (amended): for inputs with nonzero denominators, \<open>simplify\<close>, \<open>add\<close>, \<open>subtract\<close> and
  \<open>multiply\<close> return a fraction in canonical form (\<open>gcd(|num|, |den|) = 1\<close> and
  \<open>den > 0\<close>), and so does \<open>divide\<close> when the divisor's numerator is not zero.
\<close>

theorem operations_canonical:
  assumes "den a \<noteq> 0" and "den b \<noteq> 0"
  shows "(\<exists>r. simplify a = Inr r \<and> canonical r) \<and>
         (\<exists>r. add a b = Inr r \<and> canonical r) \<and>
         (\<exists>r. subtract a b = Inr r \<and> canonical r) \<and>
         (\<exists>r. multiply a b = Inr r \<and> canonical r) \<and>
         (num b \<noteq> 0 \<longrightarrow> (\<exists>r. divide_frac a b = Inr r \<and> canonical r))"
proof -
  have s: "\<exists>r. simplify f = Inr r \<and> canonical r" if "den f \<noteq> 0" for f
    using simplify_canonical [OF that] by blast
  have "\<exists>r. simplify a = Inr r \<and> canonical r"
    using assms(1) by (rule s)
  moreover have "\<exists>r. add a b = Inr r \<and> canonical r"
    unfolding add_def using assms by (intro s) simp
  moreover have "\<exists>r. subtract a b = Inr r \<and> canonical r"
    unfolding subtract_def using assms by (intro s) simp
  moreover have "\<exists>r. multiply a b = Inr r \<and> canonical r"
    unfolding multiply_def using assms by (intro s) simp
  moreover have "\<exists>r. divide_frac a b = Inr r \<and> canonical r" if "num b \<noteq> 0"
    unfolding divide_frac_def using assms that by (intro s) simp
  ultimately show ?thesis by blast
qed

theorem operations_canonical_witness:
  "den \<lparr>num = 1, den = 2\<rparr> \<noteq> 0 \<and> den \<lparr>num = 3, den = - 4\<rparr> \<noteq> 0 \<and>
   num \<lparr>num = 3, den = - 4\<rparr> \<noteq> 0 \<and>
   (\<exists>r. simplify \<lparr>num = 1, den = 2\<rparr> = Inr r \<and> canonical r) \<and>
   (\<exists>r. add \<lparr>num = 1, den = 2\<rparr> \<lparr>num = 3, den = - 4\<rparr> = Inr r \<and> canonical r) \<and>
   (\<exists>r. subtract \<lparr>num = 1, den = 2\<rparr> \<lparr>num = 3, den = - 4\<rparr> = Inr r \<and> canonical r) \<and>
   (\<exists>r. multiply \<lparr>num = 1, den = 2\<rparr> \<lparr>num = 3, den = - 4\<rparr> = Inr r \<and> canonical r) \<and>
   (\<exists>r. divide_frac \<lparr>num = 1, den = 2\<rparr> \<lparr>num = 3, den = - 4\<rparr> = Inr r \<and> canonical r)"
  using operations_canonical [of "\<lparr>num = 1, den = 2\<rparr>" "\<lparr>num = 3, den = - 4\<rparr>"]
  by simp

section \<open>Properties of the base decoder\<close>

lemma digit_table_charToDigit:
  "list_all (\<lambda>(c, d). charToDigit c = Inr (int d) \<and> \<not> isWhiteSpace c \<and> c \<noteq> CHR ''-'') digit_table"
  by code_simp

lemma digit_value_charToDigit:
  assumes "digit_value c = Some d"
  shows "charToDigit c = Inr (int d)" and "\<not> isWhiteSpace c" and "c \<noteq> CHR ''-''"
proof -
  from assms have "(c, d) \<in> set digit_table"
    unfolding digit_value_def by (rule map_of_SomeD)
  with digit_table_charToDigit
  have "charToDigit c = Inr (int d) \<and> \<not> isWhiteSpace c \<and> c \<noteq> CHR ''-''"
    unfolding list_all_iff by blast
  then show "charToDigit c = Inr (int d)" and "\<not> isWhiteSpace c" and "c \<noteq> CHR ''-''"
    by simp_all
qed

lemma digit_char_table: "list_all (\<lambda>d. digit_value (digit_char d) = Some d) [0..<36]"
  by code_simp

lemma digit_value_digit_char: "d < 36 \<Longrightarrow> digit_value (digit_char d) = Some d"
  using digit_char_table unfolding list_all_iff by simp

lemma positional_Cons: "positional b (d # ds) = d * b ^ length ds + positional b ds"
proof -
  have "positional b (d # ds) = (\<Sum>i<Suc (length ds). (d # ds) ! i * b ^ (length ds - i))"
    by (simp add: positional_def)
  also have "\<dots> = d * b ^ length ds + (\<Sum>i<length ds. ds ! i * b ^ (length ds - Suc i))"
    by (subst sum.lessThan_Suc_shift) simp
  finally show ?thesis by (simp add: positional_def)
qed

lemma positional_snoc: "positional b (ds @ [d]) = positional b ds * b + d"
proof -
  have "positional b (ds @ [d]) = (\<Sum>i<length ds. (ds @ [d]) ! i * b ^ (length ds - i)) + d"
    by (simp add: positional_def)
  also have "(\<Sum>i<length ds. (ds @ [d]) ! i * b ^ (length ds - i)) =
             (\<Sum>i<length ds. ds ! i * b ^ (length ds - Suc i) * b)"
  proof (rule sum.cong)
    fix i assume "i \<in> {..<length ds}"
    then have i: "i < length ds" by simp
    then have "length ds - i = Suc (length ds - Suc i)" by simp
    then have "b ^ (length ds - i) = b ^ (length ds - Suc i) * b" by simp
    then show "(ds @ [d]) ! i * b ^ (length ds - i) = ds ! i * b ^ (length ds - Suc i) * b"
      using i by (simp add: nth_append)
  qed simp
  also have "\<dots> = positional b ds * b"
    by (simp add: positional_def sum_distrib_right)
  finally show ?thesis .
qed

lemma accumulate_digits:
  assumes "map digit_value s = map Some ds" and "list_all (\<lambda>d. d < b) ds"
  shows "accumulate (int b) r s = Inr (r * int b ^ length ds + int (positional b ds))"
  using assms
proof (induction s arbitrary: ds r)
  case Nil
  then show ?case by (simp add: positional_def)
next
  case (Cons c s)
  then obtain d ds' where ds: "ds = d # ds'" and d: "digit_value c = Some d"
    and rest: "map digit_value s = map Some ds'"
    by (cases ds) auto
  from Cons.prems(2) ds have db: "d < b" and restb: "list_all (\<lambda>d. d < b) ds'"
    by simp_all
  have "accumulate (int b) r (c # s) = accumulate (int b) (r * int b + int d) s"
    using digit_value_charToDigit(1) [OF d] db by simp
  also have "\<dots> = Inr ((r * int b + int d) * int b ^ length ds' + int (positional b ds'))"
    by (rule Cons.IH [OF rest restb])
  also have "\<dots> = Inr (r * int b ^ length ds + int (positional b ds))"
    by (simp add: ds positional_Cons algebra_simps)
  finally show ?case .
qed

lemma trim_no_space:
  assumes "s = [] \<or> (\<not> isWhiteSpace (hd s) \<and> \<not> isWhiteSpace (last s))"
  shows "trim s = s"
proof (cases s)
  case Nil
  then show ?thesis by (simp add: trim_def)
next
  case (Cons c cs)
  with assms have h: "\<not> isWhiteSpace (hd s)" and l: "\<not> isWhiteSpace (last s)" by auto
  have 1: "dropWhile isWhiteSpace s = s"
    using h by (simp add: dropWhile_eq_self_iff)
  have "hd (rev s) = last s" using Cons by (simp add: hd_rev)
  then have 2: "dropWhile isWhiteSpace (rev s) = rev s"
    using l by (simp add: dropWhile_eq_self_iff)
  show ?thesis by (simp add: trim_def 1 2)
qed

lemma digits_trim:
  assumes "map digit_value s = map Some ds"
  shows "trim s = s" and "s \<noteq> [] \<Longrightarrow> hd s \<noteq> CHR ''-''"
proof -
  have all: "digit_value c \<noteq> None" if "c \<in> set s" for c
  proof -
    from that have "digit_value c \<in> set (map digit_value s)" by simp
    with assms show ?thesis by auto
  qed
  show "trim s = s"
  proof (rule trim_no_space, cases "s = []")
    case False
    then have "hd s \<in> set s" "last s \<in> set s" by simp_all
    then show "s = [] \<or> (\<not> isWhiteSpace (hd s) \<and> \<not> isWhiteSpace (last s))"
      using all digit_value_charToDigit(2) by blast
  qed simp
  show "hd s \<noteq> CHR ''-''" if "s \<noteq> []"
  proof -
    from that have "hd s \<in> set s" by simp
    then show ?thesis using all digit_value_charToDigit(3) by blast
  qed
qed

lemma parse_denotes:
  assumes "denotes b s v" and "2 \<le> b" and "b \<le> 36"
  shows "parseBigIntFromBase s (int b) = Inr (int v)"
proof -
  from assms(1) obtain ds where ds: "map digit_value s = map Some ds"
    and lt: "list_all (\<lambda>d. d < b) ds" and v: "positional b ds = v"
    by (auto simp: denotes_def)
  have neg: "\<not> (s \<noteq> [] \<and> hd s = CHR ''-'')"
    using digits_trim(2) [OF ds] by blast
  show ?thesis
    using assms(2,3) neg accumulate_digits [OF ds lt, of 0]
    by (auto simp add: parseBigIntFromBase_def digits_trim(1) [OF ds] v Let_def)
qed


lemma denotes_single: "d < b \<Longrightarrow> b \<le> 36 \<Longrightarrow> denotes b [digit_char d] d"
  unfolding denotes_def
  by (rule exI [of _ "[d]"]) (simp add: digit_value_digit_char positional_def)

lemma denotes_snoc:
  assumes "denotes b s v" and "d < b" and "b \<le> 36"
  shows "denotes b (s @ [digit_char d]) (v * b + d)"
proof -
  from assms(1) obtain ds where ds: "map digit_value s = map Some ds"
    and lt: "list_all (\<lambda>d. d < b) ds" and v: "positional b ds = v"
    by (auto simp: denotes_def)
  have "map digit_value (s @ [digit_char d]) = map Some (ds @ [d])"
    using ds assms(2,3) by (simp add: digit_value_digit_char)
  moreover have "list_all (\<lambda>d. d < b) (ds @ [d])"
    using lt assms(2) by simp
  moreover have "positional b (ds @ [d]) = v * b + d"
    by (simp add: positional_snoc v)
  ultimately show ?thesis
    unfolding denotes_def by blast
qed

lemma encode_denotes: "2 \<le> b \<Longrightarrow> b \<le> 36 \<Longrightarrow> denotes b (encode v b) v"
proof (induction v b rule: encode.induct)
  case (1 v b)
  show ?case
  proof (cases "v < b")
    case True
    then show ?thesis
      using "1.prems" by (simp add: encode.simps [of v b] denotes_single)
  next
    case False
    with "1.prems" have step: "encode v b = encode (v div b) b @ [digit_char (v mod b)]"
      by (simp add: encode.simps [of v b])
    have "denotes b (encode (v div b) b) (v div b)"
      using "1.IH" False "1.prems" by simp
    then have "denotes b (encode (v div b) b @ [digit_char (v mod b)]) (v div b * b + v mod b)"
      using "1.prems" by (intro denotes_snoc) simp_all
    then show ?thesis by (simp add: step)
  qed
qed

lemma encode_correct_formatter: "correct_formatter encode"
  unfolding correct_formatter_def by (simp add: encode_denotes)

text \<open>
  C5: for every base \<open>b\<close> in \<open>[2, 36]\<close>, every non-negative integer \<open>v\<close> and every correct
  base-\<open>b\<close> formatter \<open>enc\<close> (one whose output denotes its argument in base-\<open>b\<close> positional
  notation), decoding \<open>enc v b\<close> in base \<open>b\<close> returns exactly \<open>v\<close>.
\<close>

theorem decode_encode_roundtrip:
  assumes "correct_formatter enc" and "2 \<le> b" and "b \<le> 36"
  shows "parseBigIntFromBase (enc v b) (int b) = Inr (int v)"
proof -
  from assms have "denotes b (enc v b) v"
    unfolding correct_formatter_def by blast
  then show ?thesis using assms(2,3) by (rule parse_denotes)
qed



theorem decode_encode_roundtrip_witness:
  "correct_formatter encode \<and> (2::nat) \<le> 16 \<and> (16::nat) \<le> 36 \<and>
   encode 255 16 = ''ff'' \<and>
   parseBigIntFromBase (encode 255 16) (int 16) = Inr (int 255)"
proof -
  have e: "encode 255 16 = ''ff''" by code_simp
  have "parseBigIntFromBase (encode 255 16) (int 16) = Inr (int 255)"
    by (rule decode_encode_roundtrip [OF encode_correct_formatter]) simp_all
  then show ?thesis
    using encode_correct_formatter e by simp
qed

lemma valid_digits_obtain:
  assumes "valid_digits b s"
  shows "\<exists>ds. map digit_value s = map Some ds \<and> list_all (\<lambda>d. d < b) ds"
  using assms
proof (induction s)
  case Nil
  then show ?case by simp
next
  case (Cons c s)
  then obtain d where d: "digit_value c = Some d" "d < b" and rest: "valid_digits b s"
    by (auto simp: valid_digits_def split: option.splits)
  from Cons.IH [OF rest] obtain ds
    where "map digit_value s = map Some ds" "list_all (\<lambda>d. d < b) ds" by blast
  with d have "map digit_value (c # s) = map Some (d # ds) \<and> list_all (\<lambda>d. d < b) (d # ds)"
    by simp
  then show ?case by blast
qed

lemma accumulate_append:
  "accumulate b r (s @ t) =
     (case accumulate b r s of Inl e \<Rightarrow> Inl e | Inr r' \<Rightarrow> accumulate b r' t)"
  by (induction s arbitrary: r) (auto split: sum.splits)

lemma whitespace_not_digit:
  assumes "isWhiteSpace c"
  shows "charToDigit c = Inl (InvalidDigitChar c)"
proof -
  from assms have "(of_char c :: nat) \<in> {9, 10, 11, 12, 13, 32, 160}"
    by (simp add: isWhiteSpace_def)
  then have "char_of (of_char c :: nat) \<in> (char_of ` {9, 10, 11, 12, 13, 32, 160 :: nat})"
    by (rule imageI)
  then have "c \<in> char_of ` {9, 10, 11, 12, 13, 32, 160 :: nat}"
    by (simp only: char_of_char)
  then show ?thesis
    by (auto simp: charToDigit_def toLowerCase_def Let_def)
qed

lemma minus_not_digit: "charToDigit CHR ''-'' = Inl (InvalidDigitChar CHR ''-'')"
  by (simp add: charToDigit_def toLowerCase_def Let_def)

lemma trim_keeps_prefix:
  assumes "\<not> isWhiteSpace (hd (pre @ [c]))" and "\<not> isWhiteSpace c"
  shows "\<exists>post'. trim (pre @ c # post) = pre @ c # post'"
proof -
  have hd_eq: "hd (pre @ c # post) = hd (pre @ [c])" by (cases pre) simp_all
  have 1: "dropWhile isWhiteSpace (pre @ c # post) = pre @ c # post"
    using assms(1) hd_eq by (simp add: dropWhile_eq_self_iff)
  have 2: "dropWhile isWhiteSpace (c # rev pre) = c # rev pre"
    using assms(2) by simp
  have "\<exists>zs. dropWhile isWhiteSpace (rev post @ c # rev pre) = zs @ c # rev pre"
  proof (cases "\<forall>x\<in>set (rev post). isWhiteSpace x")
    case True
    then have "dropWhile isWhiteSpace (rev post @ c # rev pre) = [] @ c # rev pre"
      using 2 by (simp add: dropWhile_append)
    then show ?thesis by blast
  next
    case False
    then have "dropWhile isWhiteSpace (rev post @ c # rev pre) =
               dropWhile isWhiteSpace (rev post) @ c # rev pre"
      by (auto simp add: dropWhile_append)
    then show ?thesis by blast
  qed
  then obtain zs where "dropWhile isWhiteSpace (rev post @ c # rev pre) = zs @ c # rev pre"
    by blast
  then have "trim (pre @ c # post) = pre @ c # rev zs"
    by (simp add: trim_def 1)
  then show ?thesis by blast
qed


lemma charToDigit_chars:
  assumes "charToDigit c = Inr d"
  shows "\<not> isWhiteSpace c" and "c \<noteq> CHR ''-''"
  using assms whitespace_not_digit [of c] minus_not_digit by auto

text \<open>
  C6: for every valid digit string \<open>s\<close> of base \<open>b\<close> in \<open>[2, 36]\<close> (every character a digit
  of value below \<open>b\<close>), both \<open>s\<close> and \<open>"-" + s\<close> decode, and the second value is the
  negation of the first.
\<close>

theorem decode_minus_sign:
  assumes "valid_digits b s" and "2 \<le> b" and "b \<le> 36"
  shows "\<exists>v. parseBigIntFromBase s (int b) = Inr v \<and>
             parseBigIntFromBase (CHR ''-'' # s) (int b) = Inr (- v)"
proof -
  from valid_digits_obtain [OF assms(1)] obtain ds
    where ds: "map digit_value s = map Some ds" and lt: "list_all (\<lambda>d. d < b) ds"
    by blast
  let ?v = "int (positional b ds)"
  have acc: "accumulate (int b) 0 s = Inr ?v"
    using accumulate_digits [OF ds lt, of 0] by simp
  have "denotes b s (positional b ds)"
    unfolding denotes_def using ds lt by blast
  then have plain: "parseBigIntFromBase s (int b) = Inr ?v"
    using assms(2,3) by (rule parse_denotes)
  have "\<not> isWhiteSpace (last (CHR ''-'' # s))"
  proof (cases "s = []")
    case True
    then show ?thesis by (simp add: isWhiteSpace_def)
  next
    case False
    then have "last s \<in> set s" by simp
    then have "digit_value (last s) \<in> set (map digit_value s)" by simp
    with ds obtain d where "digit_value (last s) = Some d" by auto
    then show ?thesis using False digit_value_charToDigit(2) by simp
  qed
  then have tr: "trim (CHR ''-'' # s) = CHR ''-'' # s"
    by (intro trim_no_space) (simp add: isWhiteSpace_def)
  have "parseBigIntFromBase (CHR ''-'' # s) (int b) = Inr (- ?v)"
    using assms(2,3) by (simp add: parseBigIntFromBase_def tr acc Let_def)
  with plain show ?thesis by blast
qed

theorem decode_minus_sign_witness:
  "valid_digits 16 ''1F'' \<and> (2::nat) \<le> 16 \<and> (16::nat) \<le> 36 \<and>
   (\<exists>v. parseBigIntFromBase ''1F'' (int 16) = Inr v \<and>
        parseBigIntFromBase ''-1F'' (int 16) = Inr (- v))"
proof -
  have v: "valid_digits 16 ''1F''" by code_simp
  show ?thesis
    using decode_minus_sign [OF v] v by simp
qed

text \<open>
  C7: a character whose digit value is at or above the base is rejected with
  \<open>DigitOutOfRange\<close>, wherever it stands after valid digits (\<open>pre\<close>) and whatever follows
  it; \<open>decode("g", 16)\<close> fails with \<open>DigitOutOfRange\<close> and \<open>decode("z", 36)\<close> returns 35.
\<close>

theorem decode_digit_out_of_range:
  "(valid_digits b pre \<and> charToDigit c = Inr d \<and> int b \<le> d \<and> 2 \<le> b \<and> b \<le> 36 \<longrightarrow>
      parseBigIntFromBase (pre @ c # post) (int b) = Inl (DigitOutOfRange c (int b))) \<and>
   parseBigIntFromBase ''g'' 16 = Inl (DigitOutOfRange CHR ''g'' 16) \<and>
   parseBigIntFromBase ''z'' 36 = Inr 35"
proof -
  have gen: "parseBigIntFromBase (pre @ c # post) (int b) = Inl (DigitOutOfRange c (int b))"
    if v: "valid_digits b pre" and c: "charToDigit c = Inr d" and d: "int b \<le> d"
      and b: "2 \<le> b" "b \<le> 36"
  proof -
    from valid_digits_obtain [OF v] obtain ds
      where ds: "map digit_value pre = map Some ds" and lt: "list_all (\<lambda>d. d < b) ds"
      by blast
    have hdc: "\<not> isWhiteSpace (hd (pre @ [c])) \<and> hd (pre @ [c]) \<noteq> CHR ''-''"
    proof (cases pre)
      case Nil
      then show ?thesis using charToDigit_chars [OF c] by simp
    next
      case (Cons p ps)
      with ds obtain e where "digit_value p = Some e" by (cases ds) auto
      then show ?thesis using Cons digit_value_charToDigit(2,3) by simp
    qed
    then obtain post' where tr: "trim (pre @ c # post) = pre @ c # post'"
      using trim_keeps_prefix charToDigit_chars(1) [OF c] by blast
    have hd': "hd (pre @ c # post') = hd (pre @ [c])" by (cases pre) simp_all
    have "accumulate (int b) 0 (pre @ c # post') = Inl (DigitOutOfRange c (int b))"
      using accumulate_digits [OF ds lt, of 0] c d by (simp add: accumulate_append)
    then show ?thesis
      using b hdc hd' by (simp add: parseBigIntFromBase_def tr Let_def)
  qed
  have g: "parseBigIntFromBase ''g'' 16 = Inl (DigitOutOfRange CHR ''g'' 16)"
    by code_simp
  have z: "parseBigIntFromBase ''z'' 36 = Inr 35"
    by code_simp
  from gen g z show ?thesis by blast
qed

theorem decode_digit_out_of_range_witness:
  "valid_digits 8 ''17'' \<and> charToDigit CHR ''9'' = Inr 9 \<and> int 8 \<le> 9 \<and>
   (2::nat) \<le> 8 \<and> (8::nat) \<le> 36 \<and>
   parseBigIntFromBase (''17'' @ CHR ''9'' # ''0 '') (int 8) = Inl (DigitOutOfRange CHR ''9'' (int 8))"
proof -
  have v: "valid_digits 8 ''17''" by code_simp
  have c: "charToDigit CHR ''9'' = Inr 9" by code_simp
  show ?thesis
    using decode_digit_out_of_range [of 8 "''17''" "CHR ''9''" 9 "''0 ''"] v c by simp
qed

lemma trim_all_whitespace:
  assumes "list_all isWhiteSpace s"
  shows "trim s = []"
proof -
  from assms have d: "dropWhile isWhiteSpace s = []"
    by (induction s) simp_all
  show ?thesis unfolding trim_def d by simp
qed

lemma trim_lone_minus:
  assumes "list_all isWhiteSpace ws1" and "list_all isWhiteSpace ws2"
  shows "trim (ws1 @ CHR ''-'' # ws2) = ''-''"
proof -
  have m: "\<not> isWhiteSpace CHR ''-''" by (simp add: isWhiteSpace_def)
  have 1: "dropWhile isWhiteSpace (ws1 @ CHR ''-'' # ws2) = CHR ''-'' # ws2"
    using assms(1) m by (simp add: dropWhile_append list_all_iff)
  have 2: "dropWhile isWhiteSpace (rev ws2 @ [CHR ''-'']) = [CHR ''-'']"
    using assms(2) m by (simp add: dropWhile_append list_all_iff)
  show ?thesis by (simp add: trim_def 1 2)
qed

text \<open>
  C9: for every base in \<open>[2, 36]\<close>, a string that is empty, is white space only, or is a
  lone minus sign with white space around it (so that nothing is left after trimming and
  stripping the sign) decodes to \<open>0\<close>; no error is raised.
\<close>

theorem decode_blank_is_zero:
  assumes "list_all isWhiteSpace ws1" and "list_all isWhiteSpace ws2"
    and "m = [] \<or> m = ''-''" and "2 \<le> b" and "b \<le> 36"
  shows "parseBigIntFromBase (ws1 @ m @ ws2) b = Inr 0"
proof -
  from assms(3) show ?thesis
  proof
    assume "m = []"
    moreover have "trim (ws1 @ ws2) = []"
      using assms(1,2) by (intro trim_all_whitespace) simp
    ultimately show ?thesis
      using assms(4,5) by (simp add: parseBigIntFromBase_def)
  next
    assume "m = ''-''"
    then show ?thesis
      using assms(4,5) trim_lone_minus [OF assms(1,2)]
      by (simp add: parseBigIntFromBase_def)
  qed
qed

theorem decode_blank_is_zero_witness:
  "list_all isWhiteSpace '' '' \<and> list_all isWhiteSpace [] \<and> (2::int) \<le> 10 \<and> (10::int) \<le> 36 \<and>
   parseBigIntFromBase [] 10 = Inr 0 \<and>
   parseBigIntFromBase ''  '' 10 = Inr 0 \<and>
   parseBigIntFromBase ''-'' 10 = Inr 0 \<and>
   parseBigIntFromBase '' - '' 10 = Inr 0"
proof -
  have w: "list_all isWhiteSpace '' ''" "list_all isWhiteSpace []"
    by (simp_all add: isWhiteSpace_def)
  show ?thesis
    using decode_blank_is_zero [OF w(2) w(2), of "[]" 10]
          decode_blank_is_zero [OF w(1) w(1), of "[]" 10]
          decode_blank_is_zero [OF w(2) w(2), of "''-''" 10]
          decode_blank_is_zero [OF w(1) w(1), of "''-''" 10] w
    by simp
qed

section \<open>Properties of the solver\<close>

subsection \<open>Fraction values\<close>

lemma fval_zero_iff: "den f \<noteq> 0 \<Longrightarrow> fval f = 0 \<longleftrightarrow> num f = 0"
  by (simp add: fval_def)

lemma simplify_val:
  assumes "den f \<noteq> 0"
  shows "\<exists>r. simplify f = Inr r \<and> den r \<noteq> 0 \<and> fval r = fval f \<and> canonical r"
  using simplify_canonical [OF assms] by (auto simp: canonical_def)

lemma divide_val:
  assumes "den a \<noteq> 0" and "den b \<noteq> 0" and "num b \<noteq> 0"
  shows "\<exists>r. divide_frac a b = Inr r \<and> den r \<noteq> 0 \<and> fval r = fval a / fval b"
proof -
  let ?f = "\<lparr>num = num a * den b, den = den a * num b\<rparr>"
  have "den ?f \<noteq> 0" using assms by simp
  from simplify_val [OF this] obtain r
    where r: "simplify ?f = Inr r" "den r \<noteq> 0" "fval r = fval ?f" by blast
  have "fval ?f = fval a / fval b"
    using assms by (simp add: fval_def)
  with r show ?thesis by (simp add: divide_frac_def)
qed

lemma multiply_val:
  assumes "den a \<noteq> 0" and "den b \<noteq> 0"
  shows "\<exists>r. multiply a b = Inr r \<and> den r \<noteq> 0 \<and> fval r = fval a * fval b"
proof -
  let ?f = "\<lparr>num = num a * num b, den = den a * den b\<rparr>"
  have "den ?f \<noteq> 0" using assms by simp
  from simplify_val [OF this] obtain r
    where r: "simplify ?f = Inr r" "den r \<noteq> 0" "fval r = fval ?f" by blast
  have "fval ?f = fval a * fval b"
    using assms by (simp add: fval_def)
  with r show ?thesis by (simp add: multiply_def)
qed

lemma subtract_val:
  assumes "den a \<noteq> 0" and "den b \<noteq> 0"
  shows "\<exists>r. subtract a b = Inr r \<and> den r \<noteq> 0 \<and> fval r = fval a - fval b"
proof -
  let ?f = "\<lparr>num = num a * den b - num b * den a, den = den a * den b\<rparr>"
  have "den ?f \<noteq> 0" using assms by simp
  from simplify_val [OF this] obtain r
    where r: "simplify ?f = Inr r" "den r \<noteq> 0" "fval r = fval ?f" by blast
  have "fval ?f = fval a - fval b"
    using assms by (simp add: fval_def diff_frac_eq)
  with r show ?thesis by (simp add: subtract_def)
qed

lemma cell_wf: "wf_grid n m mat \<Longrightarrow> r < n \<Longrightarrow> c < m \<Longrightarrow> cell mat r c = Some (mat ! r ! c)"
  by (simp add: wf_grid_def cell_def)

lemma setCell_nth:
  assumes "wf_grid n m mat" and "r < n" and "c < m" and "r' < n" and "c' < m"
  shows "setCell mat r c v ! r' ! c' = (if r' = r \<and> c' = c then v else mat ! r' ! c')"
  using assms by (auto simp: wf_grid_def setCell_def nth_list_update)

lemma setCell_wf:
  assumes "wf_grid n m mat" and "r < n" and "c < m" and "den v \<noteq> 0"
  shows "wf_grid n m (setCell mat r c v)"
  using assms by (auto simp: wf_grid_def setCell_def nth_list_update)

subsection \<open>The loops of the solver\<close>

lemma entry_setCell:
  assumes "wf_grid n m mat" and "r < n" and "c < m" and "r' < n" and "c' < m"
  shows "entry (setCell mat r c v) r' c' = (if r' = r \<and> c' = c then fval v else entry mat r' c')"
  using setCell_nth [OF assms] by (simp add: entry_def)

lemma normalizeRow_spec:
  assumes "wf_grid n m mat" and "col < n" and "set cs \<subseteq> {..<m}" and "distinct cs"
    and "den p \<noteq> 0" and "num p \<noteq> 0"
  shows "\<exists>mat'. normalizeRow mat col (Some p) cs = Inr mat' \<and> wf_grid n m mat' \<and>
           (\<forall>r<n. \<forall>c<m. entry mat' r c =
              (if r = col \<and> c \<in> set cs then entry mat r c / fval p else entry mat r c))"
  using assms(1,3,4)
proof (induction cs arbitrary: mat)
  case Nil
  then show ?case by simp
next
  case (Cons c cs)
  from Cons.prems have c: "c < m" and cs: "set cs \<subseteq> {..<m}" "distinct cs" and cn: "c \<notin> set cs"
    by simp_all
  note wf = Cons.prems(1)
  have rd: "cell mat col c = Some (mat ! col ! c)"
    using wf assms(2) c by (rule cell_wf)
  have dn: "den (mat ! col ! c) \<noteq> 0"
    using wf assms(2) c by (simp add: wf_grid_def)
  from divide_val [OF dn assms(5,6)] obtain v
    where v: "divide_frac (mat ! col ! c) p = Inr v" "den v \<noteq> 0"
      "fval v = fval (mat ! col ! c) / fval p" by blast
  let ?mat1 = "setCell mat col c v"
  have wf1: "wf_grid n m ?mat1"
    using wf assms(2) c v(2) by (rule setCell_wf)
  from Cons.IH [OF wf1 cs] obtain mat'
    where run: "normalizeRow ?mat1 col (Some p) cs = Inr mat'" and wf': "wf_grid n m mat'"
      and ent: "\<forall>r<n. \<forall>c'<m. entry mat' r c' =
                 (if r = col \<and> c' \<in> set cs then entry ?mat1 r c' / fval p else entry ?mat1 r c')"
    by blast
  have "normalizeRow mat col (Some p) (c # cs) = Inr mat'"
    using rd v(1) run by (simp add: divide_u_def)
  moreover have "entry mat' r c' =
      (if r = col \<and> c' \<in> set (c # cs) then entry mat r c' / fval p else entry mat r c')"
    if "r < n" "c' < m" for r c'
    using ent that cn v(3) entry_setCell [OF wf assms(2) c that]
    by (auto simp: entry_def)
  ultimately show ?case using wf' by blast
qed

lemma eliminateRow_spec:
  assumes "wf_grid n m mat" and "r < n" and "col < n" and "r \<noteq> col"
    and "set cs \<subseteq> {..<m}" and "distinct cs" and "den f \<noteq> 0"
  shows "\<exists>mat'. eliminateRow mat r col (Some f) cs = Inr mat' \<and> wf_grid n m mat' \<and>
           (\<forall>r'<n. \<forall>c<m. entry mat' r' c =
              (if r' = r \<and> c \<in> set cs then entry mat r c - fval f * entry mat col c
               else entry mat r' c))"
  using assms(1,5,6)
proof (induction cs arbitrary: mat)
  case Nil
  then show ?case by simp
next
  case (Cons c cs)
  from Cons.prems have c: "c < m" and cs: "set cs \<subseteq> {..<m}" "distinct cs" and cn: "c \<notin> set cs"
    by simp_all
  note wf = Cons.prems(1)
  have rd1: "cell mat col c = Some (mat ! col ! c)"
    using wf assms(3) c by (rule cell_wf)
  have rd2: "cell mat r c = Some (mat ! r ! c)"
    using wf assms(2) c by (rule cell_wf)
  have dn1: "den (mat ! col ! c) \<noteq> 0" and dn2: "den (mat ! r ! c) \<noteq> 0"
    using wf assms(2,3) c by (simp_all add: wf_grid_def)
  from multiply_val [OF assms(7) dn1] obtain p
    where p: "multiply f (mat ! col ! c) = Inr p" "den p \<noteq> 0"
      "fval p = fval f * fval (mat ! col ! c)" by blast
  from subtract_val [OF dn2 p(2)] obtain v
    where v: "subtract (mat ! r ! c) p = Inr v" "den v \<noteq> 0"
      "fval v = fval (mat ! r ! c) - fval p" by blast
  let ?mat1 = "setCell mat r c v"
  have wf1: "wf_grid n m ?mat1"
    using wf assms(2) c v(2) by (rule setCell_wf)
  from Cons.IH [OF wf1 cs] obtain mat'
    where run: "eliminateRow ?mat1 r col (Some f) cs = Inr mat'" and wf': "wf_grid n m mat'"
      and ent: "\<forall>r'<n. \<forall>c'<m. entry mat' r' c' =
                 (if r' = r \<and> c' \<in> set cs then entry ?mat1 r c' - fval f * entry ?mat1 col c'
                  else entry ?mat1 r' c')"
    by blast
  have "eliminateRow mat r col (Some f) (c # cs) = Inr mat'"
    using rd1 rd2 p(1) v(1) run by (simp add: multiply_u_def subtract_u_def)
  moreover have "entry mat' r' c' =
      (if r' = r \<and> c' \<in> set (c # cs) then entry mat r c' - fval f * entry mat col c'
       else entry mat r' c')"
    if "r' < n" "c' < m" for r' c'
    using ent that cn v(3) p(3) assms(2,3,4)
      entry_setCell [OF wf assms(2) c that]
      entry_setCell [OF wf assms(2) c assms(2) that(2)]
      entry_setCell [OF wf assms(2) c assms(3) that(2)]
    by (auto simp: entry_def)
  ultimately show ?case using wf' by blast
qed

lemma eliminateRows_spec:
  assumes "wf_grid n m mat" and "col < n" and "col < m"
    and "set rs \<subseteq> {..<n}" and "distinct rs"
  shows "\<exists>mat'. eliminateRows mat m col rs = Inr mat' \<and> wf_grid n m mat' \<and>
           (\<forall>r<n. \<forall>c<m. entry mat' r c =
              (if r \<in> set rs \<and> r \<noteq> col \<and> col \<le> c
               then entry mat r c - entry mat r col * entry mat col c
               else entry mat r c))"
  using assms(1,4,5)
proof (induction rs arbitrary: mat)
  case Nil
  then show ?case by simp
next
  case (Cons r rs)
  from Cons.prems have r: "r < n" and rs: "set rs \<subseteq> {..<n}" "distinct rs" and rn: "r \<notin> set rs"
    by simp_all
  note wf = Cons.prems(1)
  show ?case
  proof (cases "r = col")
    case True
    from Cons.IH [OF wf rs] obtain mat'
      where run: "eliminateRows mat m col rs = Inr mat'" and wf': "wf_grid n m mat'"
        and ent: "\<forall>r'<n. \<forall>c<m. entry mat' r' c =
                   (if r' \<in> set rs \<and> r' \<noteq> col \<and> col \<le> c
                    then entry mat r' c - entry mat r' col * entry mat col c
                    else entry mat r' c)"
      by blast
    have "eliminateRows mat m col (r # rs) = Inr mat'"
      using True run by simp
    moreover have "\<forall>r'<n. \<forall>c<m. entry mat' r' c =
                   (if r' \<in> set (r # rs) \<and> r' \<noteq> col \<and> col \<le> c
                    then entry mat r' c - entry mat r' col * entry mat col c
                    else entry mat r' c)"
      using ent True by auto
    ultimately show ?thesis using wf' by blast
  next
    case False
    have rd: "cell mat r col = Some (mat ! r ! col)"
      using wf r assms(3) by (rule cell_wf)
    have dn: "den (mat ! r ! col) \<noteq> 0"
      using wf r assms(3) by (simp add: wf_grid_def)
    have cols: "set [col..<m] \<subseteq> {..<m}" "distinct [col..<m]" by auto
    from eliminateRow_spec [OF wf r assms(2) False cols dn] obtain mat1
      where run1: "eliminateRow mat r col (Some (mat ! r ! col)) [col..<m] = Inr mat1"
        and wf1: "wf_grid n m mat1"
        and ent1: "\<forall>r'<n. \<forall>c<m. entry mat1 r' c =
                    (if r' = r \<and> c \<in> set [col..<m]
                     then entry mat r c - fval (mat ! r ! col) * entry mat col c
                     else entry mat r' c)"
      by blast
    from Cons.IH [OF wf1 rs] obtain mat'
      where run: "eliminateRows mat1 m col rs = Inr mat'" and wf': "wf_grid n m mat'"
        and ent: "\<forall>r'<n. \<forall>c<m. entry mat' r' c =
                   (if r' \<in> set rs \<and> r' \<noteq> col \<and> col \<le> c
                    then entry mat1 r' c - entry mat1 r' col * entry mat1 col c
                    else entry mat1 r' c)"
      by blast
    have "eliminateRows mat m col (r # rs) = Inr mat'"
      using False rd run1 run by simp
    moreover have "entry mat' r' c =
                   (if r' \<in> set (r # rs) \<and> r' \<noteq> col \<and> col \<le> c
                    then entry mat r' c - entry mat r' col * entry mat col c
                    else entry mat r' c)" if "r' < n" "c < m" for r' c
    proof -
      have e1: "entry mat1 r'' c' = entry mat r'' c'" if "r'' \<noteq> r" "r'' < n" "c' < m" for r'' c'
        using ent1 that by simp
      have er: "entry mat1 r c = (if col \<le> c then entry mat r c - entry mat r col * entry mat col c
                                 else entry mat r c)"
        using ent1 r \<open>c < m\<close> by (simp add: entry_def)
      show ?thesis
      proof (cases "r' = r")
        case True
        then show ?thesis using ent that rn er False by simp
      next
        case neq: False
        then show ?thesis
          using ent that e1 [OF neq that] e1 [OF neq that(1) assms(3)]
            e1 [OF False [symmetric] assms(2) that(2)] by simp
      qed
    qed
    ultimately show ?thesis using wf' by blast
  qed
qed

lemma swapRows_wf:
  assumes "wf_grid n m mat" and "col < n" and "p < n"
  shows "wf_grid n m (swapRows mat col p)"
  using assms by (auto simp: wf_grid_def swapRows_def nth_list_update)

lemma swapRows_entry:
  assumes "wf_grid n m mat" and "col < n" and "p < n" and "r < n"
  shows "entry (swapRows mat col p) r c =
           entry mat (if r = col then p else if r = p then col else r) c"
  using assms by (auto simp: wf_grid_def swapRows_def entry_def nth_list_update)

lemma findPivot_find:
  assumes "wf_grid n m mat" and "col < m" and "set rs \<subseteq> {..<n}"
  shows "findPivot mat col rs =
           Inr (case find (\<lambda>r. num (mat ! r ! col) \<noteq> 0) rs of None \<Rightarrow> col | Some r \<Rightarrow> r)"
  using assms(3)
proof (induction rs)
  case Nil
  then show ?case by simp
next
  case (Cons r rs)
  then have "r < n" by simp
  then have "cell mat r col = Some (mat ! r ! col)"
    using assms(1,2) by (intro cell_wf)
  then show ?case using Cons by simp
qed

lemma upt_below: "set [a..<n] \<subseteq> {..<n}"
  by auto

lemma find_upt_None:
  assumes "\<forall>r. a \<le> r \<and> r < b \<longrightarrow> \<not> P r"
  shows "find P [a..<b] = None"
  using assms by (simp add: find_None_iff)

lemma find_upt_Some:
  assumes "a \<le> p" and "p < b" and "P p" and "\<forall>r. a \<le> r \<and> r < p \<longrightarrow> \<not> P r"
  shows "find P [a..<b] = Some p"
proof -
  have "p - a < length [a..<b]" using assms(1,2) by simp
  moreover have "P ([a..<b] ! (p - a))" using assms(1,2,3) by simp
  moreover have "p = [a..<b] ! (p - a)" using assms(1,2) by simp
  moreover have "\<forall>j<p - a. \<not> P ([a..<b] ! j)"
    using assms(1,2,4) by auto
  ultimately show ?thesis
    unfolding find_Some_iff by blast
qed

lemma pivotStep_singular:
  assumes "wf_grid n m mat" and "col < n" and "col < m"
    and "\<forall>r. col \<le> r \<and> r < n \<longrightarrow> num (mat ! r ! col) = 0"
  shows "pivotStep n m mat col = Inl DivisionByZero"
proof -
  have "find (\<lambda>r. num (mat ! r ! col) \<noteq> 0) [col..<n] = None"
    using assms(4) by (intro find_upt_None) simp
  then have fp: "findPivot mat col [col..<n] = Inr col"
    using findPivot_find [OF assms(1,3) upt_below] by simp
  have rd: "cell mat col col = Some (mat ! col ! col)"
    using assms(1,2,3) by (rule cell_wf)
  have z: "num (mat ! col ! col) = 0"
    using assms(2,4) by simp
  have dz: "divide_frac (mat ! col ! col) (mat ! col ! col) = Inl DivisionByZero"
    by (simp add: divide_frac_def z simplify_zero_den)
  have cols: "[col..<m] = col # [Suc col..<m]"
    using assms(3) by (rule upt_conv_Cons)
  have "normalizeRow mat col (Some (mat ! col ! col)) [col..<m] = Inl DivisionByZero"
    by (simp add: cols rd divide_u_def dz)
  then show ?thesis
    by (simp add: pivotStep_def fp swapRows_def rd)
qed

lemma pivotStep_regular:
  assumes "wf_grid n m mat" and "col < n" and "col < m"
    and "col \<le> p" and "p < n" and "num (mat ! p ! col) \<noteq> 0"
    and "\<forall>r. col \<le> r \<and> r < p \<longrightarrow> num (mat ! r ! col) = 0"
  shows "\<exists>mat'. pivotStep n m mat col = Inr mat' \<and> wf_grid n m mat' \<and>
           (\<forall>r<n. \<forall>c<m. entry mat' r c = step_abs (entry mat) col p r c)"
proof -
  have "find (\<lambda>r. num (mat ! r ! col) \<noteq> 0) [col..<n] = Some p"
    using assms(4,5,6,7) by (intro find_upt_Some) simp_all
  then have fp: "findPivot mat col [col..<n] = Inr p"
    using findPivot_find [OF assms(1,3) upt_below] by simp
  let ?mat1 = "swapRows mat col p"
  have wf1: "wf_grid n m ?mat1"
    using assms(1,2,5) by (rule swapRows_wf)
  have e1: "entry ?mat1 r c = swap_abs (entry mat) col p r c" if "r < n" for r c
    using swapRows_entry [OF assms(1,2,5) that] by (simp add: swap_abs_def)
  have piv: "?mat1 ! col ! col = mat ! p ! col"
    using assms(1,2,5) by (auto simp: swapRows_def wf_grid_def nth_list_update)
  have rd: "cell ?mat1 col col = Some (mat ! p ! col)"
    using cell_wf [OF wf1 assms(2,3)] piv by simp
  have dn: "den (mat ! p ! col) \<noteq> 0"
    using assms(1,3,5) by (simp add: wf_grid_def)
  have cols: "set [col..<m] \<subseteq> {..<m}" "distinct [col..<m]" by auto
  from normalizeRow_spec [OF wf1 assms(2) cols dn assms(6)] obtain mat2
    where run2: "normalizeRow ?mat1 col (Some (mat ! p ! col)) [col..<m] = Inr mat2"
      and wf2: "wf_grid n m mat2"
      and e2: "\<forall>r<n. \<forall>c<m. entry mat2 r c =
                (if r = col \<and> c \<in> set [col..<m] then entry ?mat1 r c / fval (mat ! p ! col)
                 else entry ?mat1 r c)"
    by blast
  have rows: "set [0..<n] \<subseteq> {..<n}" "distinct [0..<n]" by auto
  from eliminateRows_spec [OF wf2 assms(2,3) rows] obtain mat3
    where run3: "eliminateRows mat2 m col [0..<n] = Inr mat3"
      and wf3: "wf_grid n m mat3"
      and e3: "\<forall>r<n. \<forall>c<m. entry mat3 r c =
                (if r \<in> set [0..<n] \<and> r \<noteq> col \<and> col \<le> c
                 then entry mat2 r c - entry mat2 r col * entry mat2 col c
                 else entry mat2 r c)"
    by blast
  have run: "pivotStep n m mat col = Inr mat3"
    by (simp add: pivotStep_def fp rd run2 run3 Let_def)
  have pv: "fval (mat ! p ! col) = swap_abs (entry mat) col p col col"
    by (simp add: swap_abs_def entry_def)
  have "entry mat3 r c = step_abs (entry mat) col p r c" if "r < n" "c < m" for r c
  proof -
    have a2: "entry mat2 r' c' =
                (if r' = col \<and> col \<le> c'
                 then swap_abs (entry mat) col p r' c' / swap_abs (entry mat) col p col col
                 else swap_abs (entry mat) col p r' c')" if "r' < n" "c' < m" for r' c'
    proof -
      from e2 that have "entry mat2 r' c' =
          (if r' = col \<and> c' \<in> set [col..<m] then entry ?mat1 r' c' / fval (mat ! p ! col)
           else entry ?mat1 r' c')" by blast
      then show ?thesis
        unfolding e1 [OF that(1)] pv using that by simp
    qed
    show ?thesis
      using e3 that a2 [OF that] a2 [OF that(1) assms(3)] a2 [OF assms(2) that(2)]
      by (simp add: step_abs_def)
  qed
  with run wf3 show ?thesis by blast
qed

subsection \<open>Row operations on the matrix of values\<close>

lemma annihilates_cong:
  assumes "\<And>i j. i < n \<Longrightarrow> j < m \<Longrightarrow> A i j = B i j"
  shows "annihilates A n m x \<longleftrightarrow> annihilates B n m x"
proof -
  have "(\<Sum>j<m. A i j * x j) = (\<Sum>j<m. B i j * x j)" if "i < n" for i
    by (rule sum.cong) (simp_all add: assms that)
  then show ?thesis by (simp add: annihilates_def)
qed

lemma annihilates_swap:
  assumes "col < n" and "p < n"
  shows "annihilates (swap_abs A col p) n m x \<longleftrightarrow> annihilates A n m x"
proof
  assume l: "annihilates (swap_abs A col p) n m x"
  show "annihilates A n m x"
    unfolding annihilates_def
  proof (intro allI impI)
    fix i assume "i < n"
    let ?i' = "if i = col then p else if i = p then col else i"
    have "?i' < n" using assms \<open>i < n\<close> by simp
    with l have "(\<Sum>j<m. swap_abs A col p ?i' j * x j) = 0"
      unfolding annihilates_def by blast
    moreover have "swap_abs A col p ?i' j = A i j" for j
      by (simp add: swap_abs_def)
    ultimately show "(\<Sum>j<m. A i j * x j) = 0" by simp
  qed
next
  assume r: "annihilates A n m x"
  show "annihilates (swap_abs A col p) n m x"
    unfolding annihilates_def
  proof (intro allI impI)
    fix i assume "i < n"
    let ?i' = "if i = col then p else if i = p then col else i"
    have "?i' < n" using assms \<open>i < n\<close> by simp
    with r have "(\<Sum>j<m. A ?i' j * x j) = 0"
      unfolding annihilates_def by blast
    then show "(\<Sum>j<m. swap_abs A col p i j * x j) = 0"
      by (simp add: swap_abs_def)
  qed
qed

lemma annihilates_reduce:
  fixes S :: "nat \<Rightarrow> nat \<Rightarrow> rat"
  assumes "col < n" and "d \<noteq> 0"
    and B: "\<And>r c. r < n \<Longrightarrow> c < m \<Longrightarrow>
              B r c = (if r = col then S col c / d else S r c - S r col * (S col c / d))"
  shows "annihilates B n m x \<longleftrightarrow> annihilates S n m x"
proof -
  define \<sigma> where "\<sigma> i = (\<Sum>j<m. S i j * x j)" for i
  have bc: "(\<Sum>j<m. B col j * x j) = \<sigma> col / d"
  proof -
    have "(\<Sum>j<m. B col j * x j) = (\<Sum>j<m. S col j * x j / d)"
      by (rule sum.cong) (simp_all add: B assms(1))
    also have "\<dots> = \<sigma> col / d"
      by (simp add: \<sigma>_def sum_divide_distrib)
    finally show ?thesis .
  qed
  have br: "(\<Sum>j<m. B r j * x j) = \<sigma> r - S r col * (\<sigma> col / d)" if "r < n" "r \<noteq> col" for r
  proof -
    have "(\<Sum>j<m. B r j * x j) = (\<Sum>j<m. S r j * x j - S r col * (S col j * x j / d))"
      by (rule sum.cong) (simp_all add: B that algebra_simps)
    also have "\<dots> = \<sigma> r - S r col * (\<Sum>j<m. S col j * x j / d)"
      by (simp add: \<sigma>_def sum_subtractf sum_distrib_left)
    also have "\<dots> = \<sigma> r - S r col * (\<sigma> col / d)"
      by (simp add: \<sigma>_def sum_divide_distrib)
    finally show ?thesis .
  qed
  show ?thesis
  proof
    assume a: "annihilates B n m x"
    then have "\<sigma> col / d = 0"
      using bc assms(1) by (simp add: annihilates_def)
    then have c0: "\<sigma> col = 0" using assms(2) by simp
    have "\<sigma> r = 0" if "r < n" for r
    proof (cases "r = col")
      case True
      then show ?thesis using c0 by simp
    next
      case False
      from a that have "(\<Sum>j<m. B r j * x j) = 0" by (simp add: annihilates_def)
      then show ?thesis using br [OF that False] c0 by simp
    qed
    then show "annihilates S n m x" by (simp add: annihilates_def \<sigma>_def)
  next
    assume a: "annihilates S n m x"
    then have z: "\<sigma> r = 0" if "r < n" for r
      using that by (simp add: annihilates_def \<sigma>_def)
    have "(\<Sum>j<m. B r j * x j) = 0" if "r < n" for r
    proof (cases "r = col")
      case True
      then show ?thesis using bc z [OF assms(1)] by simp
    next
      case False
      then show ?thesis using br [OF that False] z [OF that] z [OF assms(1)] by simp
    qed
    then show "annihilates B n m x" by (simp add: annihilates_def)
  qed
qed

lemma step_abs_uniform:
  assumes "unit_cols A n col" and "col \<le> p" and "p < n" and "col < n" and "r < n"
  shows "step_abs A col p r c =
           (if r = col then swap_abs A col p col c / swap_abs A col p col col
            else swap_abs A col p r c -
                 swap_abs A col p r col * (swap_abs A col p col c / swap_abs A col p col col))"
proof (cases "c < col")
  case True
  then have "A p c = 0"
    using assms(1,2,3) by (simp add: unit_cols_def)
  then have z: "swap_abs A col p col c = 0"
    by (simp add: swap_abs_def)
  show ?thesis using True z by (simp add: step_abs_def)
next
  case False
  then show ?thesis by (simp add: step_abs_def)
qed

lemma step_abs_kernel:
  assumes "unit_cols A n col" and "col \<le> p" and "p < n" and "col < n" and "A p col \<noteq> 0"
    and B: "\<And>r c. r < n \<Longrightarrow> c < m \<Longrightarrow> B r c = step_abs A col p r c"
  shows "annihilates B n m x \<longleftrightarrow> annihilates A n m x"
proof -
  have d: "swap_abs A col p col col \<noteq> 0"
    using assms(5) by (simp add: swap_abs_def)
  have "annihilates B n m x \<longleftrightarrow> annihilates (swap_abs A col p) n m x"
    using assms(4) d
  proof (rule annihilates_reduce)
    fix r c assume "r < n" "c < m"
    then show "B r c = (if r = col then swap_abs A col p col c / swap_abs A col p col col
                        else swap_abs A col p r c -
                             swap_abs A col p r col *
                             (swap_abs A col p col c / swap_abs A col p col col))"
      using B step_abs_uniform [OF assms(1,2,3,4)] by simp
  qed
  also have "\<dots> \<longleftrightarrow> annihilates A n m x"
    using assms(4,3) by (rule annihilates_swap)
  finally show ?thesis .
qed

lemma step_abs_unit_cols:
  assumes "unit_cols A n col" and "col \<le> p" and "p < n" and "col < n" and "A p col \<noteq> 0"
    and B: "\<And>r c. r < n \<Longrightarrow> c < m \<Longrightarrow> B r c = step_abs A col p r c"
    and "n \<le> m"
  shows "unit_cols B n (Suc col)"
  unfolding unit_cols_def
proof (intro allI impI)
  fix j i assume j: "j < Suc col" and i: "i < n"
  have jm: "j < m" using j assms(4,7) by simp
  have Bij: "B i j = step_abs A col p i j" using B i jm by simp
  show "B i j = (if i = j then 1 else 0)"
  proof (cases "j = col")
    case True
    show ?thesis
      using assms(5) True Bij by (simp add: step_abs_def swap_abs_def)
  next
    case False
    with j have jc: "j < col" by simp
    have Aj: "A i' j = (if i' = j then 1 else 0)" if "i' < n" for i'
      using assms(1) jc that by (simp add: unit_cols_def)
    have "B i j = swap_abs A col p i j"
      using Bij jc by (simp add: step_abs_def)
    also have "\<dots> = (if i = j then 1 else 0)"
      using Aj [OF i] Aj [OF assms(3)] Aj [OF assms(4)] jc assms(2)
      by (auto simp: swap_abs_def)
    finally show ?thesis .
  qed
qed

subsection \<open>The elimination as a whole\<close>

lemma eliminationLoop_append:
  "eliminationLoop n m mat (xs @ ys) =
     (case eliminationLoop n m mat xs of
        Inl e \<Rightarrow> Inl e
      | Inr mat' \<Rightarrow> eliminationLoop n m mat' ys)"
  by (induction xs arbitrary: mat) (auto split: sum.splits)

lemma pivotStep_cases:
  assumes "wf_grid n m mat" and "col < n" and "col < m"
  obtains (singular) "\<forall>r. col \<le> r \<and> r < n \<longrightarrow> num (mat ! r ! col) = 0"
      and "pivotStep n m mat col = Inl DivisionByZero"
  | (regular) p mat' where "col \<le> p" and "p < n" and "num (mat ! p ! col) \<noteq> 0"
      and "\<forall>r. col \<le> r \<and> r < p \<longrightarrow> num (mat ! r ! col) = 0"
      and "pivotStep n m mat col = Inr mat'" and "wf_grid n m mat'"
      and "\<forall>r<n. \<forall>c<m. entry mat' r c = step_abs (entry mat) col p r c"
proof (cases "\<exists>r. col \<le> r \<and> r < n \<and> num (mat ! r ! col) \<noteq> 0")
  case False
  then have z: "\<forall>r. col \<le> r \<and> r < n \<longrightarrow> num (mat ! r ! col) = 0" by blast
  from pivotStep_singular [OF assms z] z show ?thesis by (rule singular [rotated])
next
  case True
  define p where "p = (LEAST r. col \<le> r \<and> r < n \<and> num (mat ! r ! col) \<noteq> 0)"
  from True have pp: "col \<le> p \<and> p < n \<and> num (mat ! p ! col) \<noteq> 0"
    unfolding p_def by (rule LeastI_ex)
  have least: "\<forall>r. col \<le> r \<and> r < p \<longrightarrow> num (mat ! r ! col) = 0"
  proof (intro allI impI)
    fix r assume r: "col \<le> r \<and> r < p"
    then have "\<not> (col \<le> r \<and> r < n \<and> num (mat ! r ! col) \<noteq> 0)"
      unfolding p_def by (intro not_less_Least) simp
    with r pp show "num (mat ! r ! col) = 0" by simp
  qed
  from pp have p1: "col \<le> p" and p2: "p < n" and p3: "num (mat ! p ! col) \<noteq> 0" by simp_all
  from pivotStep_regular [OF assms p1 p2 p3 least] obtain mat'
    where "pivotStep n m mat col = Inr mat'" "wf_grid n m mat'"
      "\<forall>r<n. \<forall>c<m. entry mat' r c = step_abs (entry mat) col p r c" by blast
  with p1 p2 p3 least show ?thesis by (rule regular)
qed

lemma entry_zero_iff:
  assumes "wf_grid n m mat" and "r < n" and "c < m"
  shows "entry mat r c = 0 \<longleftrightarrow> num (mat ! r ! c) = 0"
proof -
  have "den (mat ! r ! c) \<noteq> 0" using assms by (simp add: wf_grid_def)
  then show ?thesis unfolding entry_def by (rule fval_zero_iff)
qed

text \<open>
  The state of the loop after the columns \<open>0\<close> to \<open>k - 1\<close>: either every pass found a
  pivot, or an earlier column \<open>j\<close> had none and the loop raised the division error there.
\<close>

lemma loop_progress:
  assumes "wf_grid n m mat0" and "n < m" and "k \<le> n"
  shows "(\<exists>mat. eliminationLoop n m mat0 [0..<k] = Inr mat \<and> wf_grid n m mat \<and>
            unit_cols (entry mat) n k \<and>
            (\<forall>x. annihilates (entry mat) n m x \<longleftrightarrow> annihilates (entry mat0) n m x)) \<or>
         (\<exists>j<k. \<exists>mat. eliminationLoop n m mat0 [0..<j] = Inr mat \<and> wf_grid n m mat \<and>
            unit_cols (entry mat) n j \<and>
            (\<forall>x. annihilates (entry mat) n m x \<longleftrightarrow> annihilates (entry mat0) n m x) \<and>
            (\<forall>r. j \<le> r \<and> r < n \<longrightarrow> num (mat ! r ! j) = 0) \<and>
            eliminationLoop n m mat0 [0..<k] = Inl DivisionByZero)"
  (is "?ok k \<or> ?bad k")
  using assms(3)
proof (induction k)
  case 0
  have "?ok 0" using assms(1) by (simp add: unit_cols_def)
  then show ?case ..
next
  case (Suc k)
  then have kn: "k < n" and km: "k < m" using assms(2) by simp_all
  from Suc have "?ok k \<or> ?bad k" by simp
  then show ?case
  proof
    assume "?bad k"
    then obtain j mat where j: "j < k"
      and st: "eliminationLoop n m mat0 [0..<j] = Inr mat" "wf_grid n m mat"
        "unit_cols (entry mat) n j"
        "\<forall>x. annihilates (entry mat) n m x \<longleftrightarrow> annihilates (entry mat0) n m x"
        "\<forall>r. j \<le> r \<and> r < n \<longrightarrow> num (mat ! r ! j) = 0"
      and fail: "eliminationLoop n m mat0 [0..<k] = Inl DivisionByZero"
      by blast
    have "eliminationLoop n m mat0 [0..<Suc k] = Inl DivisionByZero"
      using fail by (simp add: eliminationLoop_append)
    with j st have "?bad (Suc k)"
      using less_SucI by blast
    then show ?thesis ..
  next
    assume "?ok k"
    then obtain mat where st: "eliminationLoop n m mat0 [0..<k] = Inr mat"
      and wf: "wf_grid n m mat" and uc: "unit_cols (entry mat) n k"
      and ker: "\<forall>x. annihilates (entry mat) n m x \<longleftrightarrow> annihilates (entry mat0) n m x"
      by blast
    from wf kn km show ?thesis
    proof (cases rule: pivotStep_cases)
      case singular
      have "eliminationLoop n m mat0 [0..<Suc k] = Inl DivisionByZero"
        using st singular(2) by (simp add: eliminationLoop_append)
      with st wf uc ker singular(1) have "?bad (Suc k)" by blast
      then show ?thesis ..
    next
      case (regular p mat')
      have nz: "entry mat p k \<noteq> 0"
        using regular(3) entry_zero_iff [OF wf regular(2) km] by simp
      have B: "entry mat' r c = step_abs (entry mat) k p r c" if "r < n" "c < m" for r c
        using regular(7) that by simp
      have "annihilates (entry mat') n m x \<longleftrightarrow> annihilates (entry mat) n m x" for x
        using uc regular(1,2) kn nz B by (rule step_abs_kernel)
      then have ker': "\<forall>x. annihilates (entry mat') n m x \<longleftrightarrow> annihilates (entry mat0) n m x"
        using ker by simp
      have nm: "n \<le> m" using assms(2) by simp
      have uc': "unit_cols (entry mat') n (Suc k)"
        using uc regular(1,2) kn nz B nm by (rule step_abs_unit_cols)
      have "eliminationLoop n m mat0 [0..<Suc k] = Inr mat'"
        using st regular(5) by (simp add: eliminationLoop_append)
      with regular(6) uc' ker' have "?ok (Suc k)" by blast
      then show ?thesis ..
    qed
  qed
qed

lemma initial_grid:
  assumes "augmented n matrix"
  shows "wf_grid n (Suc n) (map (map makeFraction) matrix)"
    and "\<And>i j. i < n \<Longrightarrow> j < Suc n \<Longrightarrow>
           entry (map (map makeFraction) matrix) i j = of_int (matrix ! i ! j)"
proof -
  from assms have len: "length matrix = n"
    and rows: "\<And>i. i < n \<Longrightarrow> length (matrix ! i) = Suc n"
    by (simp_all add: augmented_def list_all_length)
  show "wf_grid n (Suc n) (map (map makeFraction) matrix)"
    using len rows by (simp add: wf_grid_def makeFraction_def)
  show "entry (map (map makeFraction) matrix) i j = of_int (matrix ! i ! j)"
    if "i < n" "j < Suc n" for i j
    using len rows [OF that(1)] that by (simp add: entry_def makeFraction_def fval_def)
qed

lemma sum_unit_column:
  fixes A :: "nat \<Rightarrow> nat \<Rightarrow> rat"
  assumes "unit_cols A n k" and "i < n"
  shows "(\<Sum>j<k. A i j * x j) = (if i < k then x i else 0)"
proof -
  have "(\<Sum>j<k. A i j * x j) = (\<Sum>j<k. if j = i then x j else 0)"
    by (rule sum.cong) (use assms in \<open>auto simp: unit_cols_def\<close>)
  also have "\<dots> = (if i < k then x i else 0)"
    by simp
  finally show ?thesis .
qed

lemma no_pivot_kernel:
  fixes A :: "nat \<Rightarrow> nat \<Rightarrow> rat"
  assumes "unit_cols A n k" and "k < n"
    and "\<forall>r. k \<le> r \<and> r < n \<longrightarrow> A r k = 0"
  shows "annihilates A n (Suc n) (\<lambda>j. if j < k then - A j k else if j = k then 1 else 0)"
    (is "annihilates A n (Suc n) ?x")
  unfolding annihilates_def
proof (intro allI impI)
  fix i assume i: "i < n"
  have split: "{..<Suc n} = {..<Suc k} \<union> {Suc k..<Suc n}"
    using assms(2) by auto
  have "(\<Sum>j<Suc n. A i j * ?x j) =
        (\<Sum>j<Suc k. A i j * ?x j) + (\<Sum>j=Suc k..<Suc n. A i j * ?x j)"
    unfolding split by (rule sum.union_disjoint) auto
  also have "(\<Sum>j<Suc k. A i j * ?x j) = (\<Sum>j<k. A i j * ?x j) + A i k * ?x k"
    by simp
  finally have "(\<Sum>j<Suc n. A i j * ?x j) =
        (\<Sum>j<k. A i j * ?x j) + A i k * ?x k + (\<Sum>j=Suc k..<Suc n. A i j * ?x j)" .
  also have "(\<Sum>j=Suc k..<Suc n. A i j * ?x j) = 0"
    by (rule sum.neutral) simp
  also have "(\<Sum>j<k. A i j * ?x j) = (if i < k then ?x i else 0)"
    using assms(1) i by (rule sum_unit_column)
  finally have "(\<Sum>j<Suc n. A i j * ?x j) = (if i < k then - A i k else 0) + A i k"
    by simp
  also have "\<dots> = 0"
    using assms(3) i by simp
  finally show "(\<Sum>j<Suc n. A i j * ?x j) = 0" .
qed

lemma reduced_solution:
  fixes A :: "nat \<Rightarrow> nat \<Rightarrow> rat"
  assumes "unit_cols A n n"
  shows "annihilates A n (Suc n) (\<lambda>j. if j < n then A j n else - 1)"
  unfolding annihilates_def
proof (intro allI impI)
  fix i assume i: "i < n"
  let ?x = "\<lambda>j. if j < n then A j n else - 1"
  have "(\<Sum>j<Suc n. A i j * ?x j) = (\<Sum>j<n. A i j * ?x j) + A i n * ?x n"
    by simp
  also have "(\<Sum>j<n. A i j * ?x j) = (if i < n then ?x i else 0)"
    using assms i by (rule sum_unit_column)
  finally show "(\<Sum>j<Suc n. A i j * ?x j) = 0"
    using i by simp
qed

lemma reduced_kernel:
  fixes A :: "nat \<Rightarrow> nat \<Rightarrow> rat"
  assumes "unit_cols A n n" and "annihilates A n (Suc n) x" and "x n = 0" and "i < n"
  shows "x i = 0"
proof -
  from assms(2,4) have "(\<Sum>j<Suc n. A i j * x j) = 0"
    by (simp add: annihilates_def)
  then have "(\<Sum>j<n. A i j * x j) = 0"
    using assms(3) by simp
  then show ?thesis
    using sum_unit_column [OF assms(1,4), of x] assms(4) by simp
qed

lemma extractSolution_spec:
  assumes "0 < m"
    and "\<forall>row\<in>set rows. m - 1 < length row \<and> den (row ! (m - 1)) \<noteq> 0"
  shows "\<exists>xs. extractSolution m rows = Inr xs \<and> length xs = length rows \<and>
           (\<forall>i<length rows. fval (xs ! i) = fval (rows ! i ! (m - 1)) \<and> canonical (xs ! i))"
  using assms(2)
proof (induction rows)
  case Nil
  then show ?case by simp
next
  case (Cons row rows)
  then have row: "m - 1 < length row" "den (row ! (m - 1)) \<noteq> 0"
    and rest: "\<forall>row\<in>set rows. m - 1 < length row \<and> den (row ! (m - 1)) \<noteq> 0"
    by simp_all
  from simplify_val [OF row(2)] obtain f
    where f: "simplify (row ! (m - 1)) = Inr f" "fval f = fval (row ! (m - 1))" "canonical f"
    by blast
  from Cons.IH [OF rest] obtain xs
    where xs: "extractSolution m rows = Inr xs" "length xs = length rows"
      "\<forall>i<length rows. fval (xs ! i) = fval (rows ! i ! (m - 1)) \<and> canonical (xs ! i)"
    by blast
  have "extractSolution m (row # rows) = Inr (f # xs)"
    using assms(1) row(1) f(1) xs(1) by (simp add: lastColumn_def simplify_u_def)
  moreover have "\<forall>i<length (row # rows).
      fval ((f # xs) ! i) = fval ((row # rows) ! i ! (m - 1)) \<and> canonical ((f # xs) ! i)"
    using f(2,3) xs(3) by (auto simp: nth_Cons split: nat.splits)
  ultimately show ?case using xs(2) by simp
qed

subsection \<open>Correctness and failure of \<open>solveLinearEquations\<close>\<close>

lemma solve_unfold:
  assumes "augmented n matrix" and "0 < n"
  shows "solveLinearEquations matrix =
           (case eliminationLoop n (Suc n) (map (map makeFraction) matrix) [0..<n] of
              Inl e \<Rightarrow> Inl e
            | Inr mat' \<Rightarrow> extractSolution (Suc n) mat')"
proof -
  from assms obtain row0 rest where m: "matrix = row0 # rest"
    by (cases matrix) (auto simp: augmented_def)
  with assms(1) have "length row0 = Suc n" and "length matrix = n"
    by (simp_all add: augmented_def)
  then show ?thesis
    unfolding solveLinearEquations_def by (simp add: m Let_def)
qed

lemma nonsingular_kernel:
  assumes "augmented n matrix" and "nonsingular matrix"
    and "annihilates (entry (map (map makeFraction) matrix)) n (Suc n) x" and "x n = 0"
    and "j < n"
  shows "x j = 0"
proof -
  have len: "length matrix = n" using assms(1) by (simp add: augmented_def)
  have "(\<Sum>j<n. of_int (matrix ! i ! j) * x j) = 0" if "i < n" for i
  proof -
    from assms(3) that
    have "(\<Sum>j<Suc n. entry (map (map makeFraction) matrix) i j * x j) = 0"
      by (simp add: annihilates_def)
    then have "(\<Sum>j<n. entry (map (map makeFraction) matrix) i j * x j) = 0"
      using assms(4) by simp
    moreover have "(\<Sum>j<n. entry (map (map makeFraction) matrix) i j * x j) =
                   (\<Sum>j<n. of_int (matrix ! i ! j) * x j)"
      by (rule sum.cong) (simp_all add: initial_grid(2) [OF assms(1) that])
    ultimately show ?thesis by simp
  qed
  with assms(2,5) show ?thesis
    unfolding nonsingular_def len by blast
qed

text \<open>
  C1: for every non-singular system of \<open>n \<ge> 1\<close> equations in \<open>n\<close> unknowns, given as an
  \<open>n\<close> by \<open>n + 1\<close> matrix of integers (which the solver turns into fractions of
  denominator 1), \<open>solveLinearEquations\<close> returns \<open>n\<close> fractions, one per unknown in
  column order, each in canonical form, and substituting their values for the unknowns
  satisfies every equation exactly.
\<close>

theorem solveLinearEquations_correct:
  assumes "0 < n" and "augmented n matrix" and "nonsingular matrix"
  shows "\<exists>xs. solveLinearEquations matrix = Inr xs \<and> length xs = n \<and>
              solves matrix xs \<and> list_all canonical xs"
proof -
  let ?mat0 = "map (map makeFraction) matrix"
  let ?m = "Suc n"
  have len: "length matrix = n" using assms(2) by (simp add: augmented_def)
  have wf0: "wf_grid n ?m ?mat0" using assms(2) by (rule initial_grid(1))
  from loop_progress [OF wf0 lessI order_refl]
  have "\<exists>mat. eliminationLoop n ?m ?mat0 [0..<n] = Inr mat \<and> wf_grid n ?m mat \<and>
          unit_cols (entry mat) n n \<and>
          (\<forall>x. annihilates (entry mat) n ?m x \<longleftrightarrow> annihilates (entry ?mat0) n ?m x)"
  proof
    assume "\<exists>j<n. \<exists>mat. eliminationLoop n ?m ?mat0 [0..<j] = Inr mat \<and> wf_grid n ?m mat \<and>
            unit_cols (entry mat) n j \<and>
            (\<forall>x. annihilates (entry mat) n ?m x \<longleftrightarrow> annihilates (entry ?mat0) n ?m x) \<and>
            (\<forall>r. j \<le> r \<and> r < n \<longrightarrow> num (mat ! r ! j) = 0) \<and>
            eliminationLoop n ?m ?mat0 [0..<n] = Inl DivisionByZero"
    then obtain j mat where j: "j < n" and wf: "wf_grid n ?m mat"
      and uc: "unit_cols (entry mat) n j"
      and ker: "\<forall>x. annihilates (entry mat) n ?m x \<longleftrightarrow> annihilates (entry ?mat0) n ?m x"
      and z: "\<forall>r. j \<le> r \<and> r < n \<longrightarrow> num (mat ! r ! j) = 0"
      by blast
    let ?x = "\<lambda>i. if i < j then - entry mat i j else if i = j then 1 else (0::rat)"
    have "\<forall>r. j \<le> r \<and> r < n \<longrightarrow> entry mat r j = 0"
      using z entry_zero_iff [OF wf] j by simp
    with uc j have "annihilates (entry mat) n ?m ?x"
      by (rule no_pivot_kernel)
    with ker have "annihilates (entry ?mat0) n ?m ?x" by blast
    moreover have "?x n = 0" using j by simp
    ultimately have "?x j = 0"
      using nonsingular_kernel [OF assms(2,3)] j by blast
    then show ?thesis by simp
  qed
  then obtain mat where run: "eliminationLoop n ?m ?mat0 [0..<n] = Inr mat"
    and wf: "wf_grid n ?m mat" and uc: "unit_cols (entry mat) n n"
    and ker: "\<forall>x. annihilates (entry mat) n ?m x \<longleftrightarrow> annihilates (entry ?mat0) n ?m x"
    by blast
  have "\<forall>row\<in>set mat. ?m - 1 < length row \<and> den (row ! (?m - 1)) \<noteq> 0"
    using wf by (auto simp: wf_grid_def in_set_conv_nth)
  from extractSolution_spec [OF _ this] obtain xs
    where ex: "extractSolution ?m mat = Inr xs" and lx: "length xs = length mat"
      and vals: "\<forall>i<length mat. fval (xs ! i) = fval (mat ! i ! (?m - 1)) \<and> canonical (xs ! i)"
    by auto
  have lm: "length mat = n" using wf by (simp add: wf_grid_def)
  have res: "solveLinearEquations matrix = Inr xs"
    using solve_unfold [OF assms(2,1)] run ex by simp
  have xv: "fval (xs ! i) = entry mat i n" if "i < n" for i
    using vals lm that by (simp add: entry_def)
  let ?x = "\<lambda>j. if j < n then entry mat j n else - 1"
  have "annihilates (entry mat) n ?m ?x"
    using uc by (rule reduced_solution)
  with ker have ann: "annihilates (entry ?mat0) n ?m ?x" by blast
  have "solves matrix xs"
    unfolding solves_def len
  proof (intro allI impI)
    fix i assume i: "i < n"
    from ann i have "(\<Sum>j<Suc n. entry ?mat0 i j * ?x j) = 0"
      by (simp add: annihilates_def)
    then have "(\<Sum>j<n. entry ?mat0 i j * ?x j) = entry ?mat0 i n"
      by simp
    moreover have "(\<Sum>j<n. entry ?mat0 i j * ?x j) =
                   (\<Sum>j<n. of_int (matrix ! i ! j) * fval (xs ! j))"
      by (rule sum.cong) (simp_all add: initial_grid(2) [OF assms(2) i] xv)
    ultimately show "(\<Sum>j<n. of_int (matrix ! i ! j) * fval (xs ! j)) = of_int (matrix ! i ! n)"
      using initial_grid(2) [OF assms(2) i, of n] by simp
  qed
  moreover have "list_all canonical xs"
    using vals lx by (simp add: list_all_length)
  ultimately show ?thesis using res lx lm by blast
qed

lemma nonsingular_example: "nonsingular [[2, 1, 5], [1, 3, 10]]"
  unfolding nonsingular_def
proof (intro allI impI)
  fix x :: "nat \<Rightarrow> rat" and j
  assume h: "\<forall>i<length [[2, 1, 5], [1, 3, 10 :: int]].
               (\<Sum>j<length [[2, 1, 5], [1, 3, 10 :: int]].
                  of_int ([[2, 1, 5], [1, 3, 10]] ! i ! j) * x j) = 0"
    and j: "j < length [[2, 1, 5], [1, 3, 10 :: int]]"
  have "2 * x 0 + x 1 = 0"
    using h [rule_format, of 0] by simp
  moreover have "x 0 + 3 * x 1 = 0"
    using h [rule_format, of 1] by simp
  ultimately have "x 0 = 0 \<and> x 1 = 0" by linarith
  moreover from j have "j = 0 \<or> j = 1" by auto
  ultimately show "x j = 0" by auto
qed

theorem solveLinearEquations_correct_witness:
  "(0::nat) < 2 \<and> augmented 2 [[2, 1, 5], [1, 3, 10]] \<and> nonsingular [[2, 1, 5], [1, 3, 10]] \<and>
   solveLinearEquations [[2, 1, 5], [1, 3, 10]] = Inr [\<lparr>num = 1, den = 1\<rparr>, \<lparr>num = 3, den = 1\<rparr>] \<and>
   (\<exists>xs. solveLinearEquations [[2, 1, 5], [1, 3, 10]] = Inr xs \<and> length xs = 2 \<and>
         solves [[2, 1, 5], [1, 3, 10]] xs \<and> list_all canonical xs)"
proof -
  have a: "augmented 2 [[2, 1, 5], [1, 3, 10]]"
    by (simp add: augmented_def)
  have v: "solveLinearEquations [[2, 1, 5], [1, 3, 10]] =
             Inr [\<lparr>num = 1, den = 1\<rparr>, \<lparr>num = 3, den = 1\<rparr>]"
    by code_simp
  show ?thesis
    using solveLinearEquations_correct [OF _ a nonsingular_example] a nonsingular_example v
    by simp
qed

text \<open>The case \<open>n = 0\<close>: \<^verbatim>\<open>matrix[0]\<close> is \<^verbatim>\<open>undefined\<close> and reading its length fails.\<close>

lemma solveLinearEquations_empty: "solveLinearEquations [] = Inl TypeError"
  by (simp add: solveLinearEquations_def)

lemma interpolation_example:
  "solveLinearEquations [[1, 1, 1, 6], [4, 2, 1, 15], [9, 3, 1, 28]] =
     Inr [\<lparr>num = 2, den = 1\<rparr>, \<lparr>num = 3, den = 1\<rparr>, \<lparr>num = 1, den = 1\<rparr>]"
  by code_simp

lemma loop_state_wf:
  assumes "wf_grid n m mat0" and "n < m" and "k \<le> n"
    and "eliminationLoop n m mat0 [0..<k] = Inr mat"
  shows "wf_grid n m mat"
  using loop_progress [OF assms(1,2,3)] assms(4) by auto

text \<open>
  C2 (as stated: a system with a pivot column that is zero from the diagonal down fails
  with the SingularMatrix error). The program has no such error and no test for a missing
  pivot: on the duplicated equations \<open>x + y = 2\<close> it fails with the engine's BigInt
  division error, raised by \<open>simplify\<close> on \<open>0/0\<close>.
\<close>

theorem singular_matrix_error_counterexample:
  "solveLinearEquations [[1, 1, 2], [1, 1, 2]] = Inl DivisionByZero"
  by code_simp

text \<open>
  C2 (amended): when the first \<open>col\<close> passes of the elimination succeed and leave a matrix
  whose column \<open>col\<close> has a zero numerator in every row from \<open>col\<close> to \<open>n - 1\<close>,
  \<open>solveLinearEquations\<close> fails with the division-by-zero RangeError (raised while the
  pivot row is normalised) and returns no result.
\<close>

theorem solveLinearEquations_singular:
  assumes "augmented n matrix" and "col < n"
    and "eliminationLoop n (Suc n) (map (map makeFraction) matrix) [0..<col] = Inr mat"
    and "\<forall>r. col \<le> r \<and> r < n \<longrightarrow> num (mat ! r ! col) = 0"
  shows "solveLinearEquations matrix = Inl DivisionByZero"
proof -
  let ?mat0 = "map (map makeFraction) matrix"
  have wf0: "wf_grid n (Suc n) ?mat0" using assms(1) by (rule initial_grid(1))
  have wf: "wf_grid n (Suc n) mat"
    using wf0 lessI _ assms(3) by (rule loop_state_wf) (use assms(2) in simp)
  have "pivotStep n (Suc n) mat col = Inl DivisionByZero"
    using wf assms(2) _ assms(4) by (rule pivotStep_singular) (use assms(2) in simp)
  moreover have "[0..<n] = [0..<col] @ col # [Suc col..<n]"
  proof -
    have "[0..<col + (n - col)] = [0..<col] @ [col..<col + (n - col)]"
      by (rule upt_add_eq_append) simp
    moreover have "[col..<n] = col # [Suc col..<n]"
      using assms(2) by (rule upt_conv_Cons)
    ultimately show ?thesis using assms(2) by simp
  qed
  ultimately have "eliminationLoop n (Suc n) ?mat0 [0..<n] = Inl DivisionByZero"
    using assms(3) by (simp add: eliminationLoop_append)
  moreover have "0 < n" using assms(2) by simp
  ultimately show ?thesis
    using solve_unfold [OF assms(1)] by simp
qed

theorem solveLinearEquations_singular_witness:
  "augmented 2 [[1, 2, 3], [2, 4, 6]] \<and> (1::nat) < 2 \<and>
   eliminationLoop 2 (Suc 2) (map (map makeFraction) [[1, 2, 3], [2, 4, 6]]) [0..<1] =
     Inr [[\<lparr>num = 1, den = 1\<rparr>, \<lparr>num = 2, den = 1\<rparr>, \<lparr>num = 3, den = 1\<rparr>],
          [\<lparr>num = 0, den = 1\<rparr>, \<lparr>num = 0, den = 1\<rparr>, \<lparr>num = 0, den = 1\<rparr>]] \<and>
   solveLinearEquations [[1, 2, 3], [2, 4, 6]] = Inl DivisionByZero"
proof -
  let ?g = "[[\<lparr>num = 1, den = 1\<rparr>, \<lparr>num = 2, den = 1\<rparr>, \<lparr>num = 3, den = 1\<rparr>],
             [\<lparr>num = 0, den = 1\<rparr>, \<lparr>num = 0, den = 1\<rparr>, \<lparr>num = 0, den = 1\<rparr>]]"
  have a: "augmented 2 [[1, 2, 3], [2, 4, 6]]"
    by (simp add: augmented_def)
  have l: "eliminationLoop 2 (Suc 2) (map (map makeFraction) [[1, 2, 3], [2, 4, 6]]) [0..<1] =
             Inr ?g"
    by code_simp
  have z: "\<forall>r. 1 \<le> r \<and> r < 2 \<longrightarrow> num (?g ! r ! 1) = 0"
  proof (intro allI impI)
    fix r :: nat assume "1 \<le> r \<and> r < 2"
    then have "r = 1" by simp
    then show "num (?g ! r ! 1) = 0" by simp
  qed
  show ?thesis
    using solveLinearEquations_singular [OF a _ l z] a l by simp
qed

text \<open>
  Every singular system meets such a column: the solver fails with the division error
  exactly on the singular systems.
\<close>

text \<open>
  Every singular system meets such a column: a system whose coefficients annihilate a
  nonzero vector makes the solver fail with the division error.
\<close>

lemma singular_system_fails:
  assumes "0 < n" and "augmented n matrix" and "\<not> nonsingular matrix"
  shows "solveLinearEquations matrix = Inl DivisionByZero"
proof -
  let ?mat0 = "map (map makeFraction) matrix"
  let ?m = "Suc n"
  have len: "length matrix = n" using assms(2) by (simp add: augmented_def)
  have wf0: "wf_grid n ?m ?mat0" using assms(2) by (rule initial_grid(1))
  from loop_progress [OF wf0 lessI order_refl]
  have "eliminationLoop n ?m ?mat0 [0..<n] = Inl DivisionByZero"
  proof
    assume "\<exists>mat. eliminationLoop n ?m ?mat0 [0..<n] = Inr mat \<and> wf_grid n ?m mat \<and>
          unit_cols (entry mat) n n \<and>
          (\<forall>x. annihilates (entry mat) n ?m x \<longleftrightarrow> annihilates (entry ?mat0) n ?m x)"
    then obtain mat where uc: "unit_cols (entry mat) n n"
      and ker: "\<forall>x. annihilates (entry mat) n ?m x \<longleftrightarrow> annihilates (entry ?mat0) n ?m x"
      by blast
    have "nonsingular matrix"
      unfolding nonsingular_def len
    proof (intro allI impI)
      fix x :: "nat \<Rightarrow> rat" and j
      assume h: "\<forall>i<n. (\<Sum>j<n. of_int (matrix ! i ! j) * x j) = 0" and j: "j < n"
      let ?x = "\<lambda>j. if j < n then x j else 0"
      have "annihilates (entry ?mat0) n ?m ?x"
        unfolding annihilates_def
      proof (intro allI impI)
        fix i assume i: "i < n"
        have "(\<Sum>j<n. entry ?mat0 i j * ?x j) = (\<Sum>j<n. of_int (matrix ! i ! j) * x j)"
          by (rule sum.cong) (simp_all add: initial_grid(2) [OF assms(2) i])
        then show "(\<Sum>j<Suc n. entry ?mat0 i j * ?x j) = 0"
          using h i by simp
      qed
      with ker have "annihilates (entry mat) n ?m ?x" by blast
      from reduced_kernel [OF uc this _ j] show "x j = 0"
        using j by simp
    qed
    with assms(3) show ?thesis by contradiction
  next
    assume "\<exists>j<n. \<exists>mat. eliminationLoop n ?m ?mat0 [0..<j] = Inr mat \<and> wf_grid n ?m mat \<and>
            unit_cols (entry mat) n j \<and>
            (\<forall>x. annihilates (entry mat) n ?m x \<longleftrightarrow> annihilates (entry ?mat0) n ?m x) \<and>
            (\<forall>r. j \<le> r \<and> r < n \<longrightarrow> num (mat ! r ! j) = 0) \<and>
            eliminationLoop n ?m ?mat0 [0..<n] = Inl DivisionByZero"
    then show ?thesis by blast
  qed
  then show ?thesis
    using solve_unfold [OF assms(2,1)] by simp
qed

section \<open>Properties of the store-level solver\<close>

subsection \<open>The store-level loops compute what the list-level loops do\<close>

lemma frame_refl: "frame h h S"
  by (simp add: frame_def)

lemma frame_trans: "frame h h1 S \<Longrightarrow> frame h1 h2 S \<Longrightarrow> frame h h2 S"
  by (simp add: frame_def)

lemma grid_atD:
  assumes "grid_at h mat rs g"
  shows "rowRefs h mat = Some rs" and "length rs = length g" and "distinct rs"
    and "mat \<notin> set rs" and "\<And>i. i < length g \<Longrightarrow> fracRow h (rs ! i) = Some (g ! i)"
proof -
  from assms have m: "map (fracRow h) rs = map Some g"
    and "rowRefs h mat = Some rs" "distinct rs" "mat \<notin> set rs"
    by (simp_all add: grid_at_def)
  then show "rowRefs h mat = Some rs" "distinct rs" "mat \<notin> set rs" by simp_all
  from m have l: "length (map (fracRow h) rs) = length (map Some g)" by simp
  then show l': "length rs = length g" by simp
  show "fracRow h (rs ! i) = Some (g ! i)" if "i < length g" for i
  proof -
    from m have "map (fracRow h) rs ! i = map Some g ! i" by simp
    then show ?thesis using that l' by simp
  qed
qed

lemma grid_atI:
  assumes "rowRefs h mat = Some rs" and "length rs = length g" and "distinct rs"
    and "mat \<notin> set rs" and "\<And>i. i < length g \<Longrightarrow> fracRow h (rs ! i) = Some (g ! i)"
  shows "grid_at h mat rs g"
proof -
  have "map (fracRow h) rs = map Some g"
    using assms(2,5) by (intro nth_equalityI) simp_all
  then show ?thesis using assms(1,3,4) by (simp add: grid_at_def)
qed

lemma cell_s_grid:
  assumes "grid_at h mat rs g"
  shows "cell_s h mat r c = cell g r c"
proof (cases "r < length g")
  case True
  then show ?thesis
    using grid_atD [OF assms] by (simp add: cell_s_def cell_def)
next
  case False
  then show ?thesis
    using grid_atD(1,2) [OF assms] by (simp add: cell_s_def cell_def)
qed

lemma fracRow_update:
  "a < length h \<Longrightarrow> fracRow (h[a := FracArray fs]) b = (if b = a then Some fs else fracRow h b)"
  by (simp add: fracRow_def nth_list_update)

lemma fracRow_bound: "fracRow h a = Some fs \<Longrightarrow> a < length h"
  by (simp add: fracRow_def split: if_splits)

lemma rowRefs_bound: "rowRefs h a = Some rs \<Longrightarrow> a < length h"
  by (simp add: rowRefs_def split: if_splits)

lemma rowRefs_update_other:
  "b \<noteq> a \<Longrightarrow> rowRefs (h[a := x]) b = rowRefs h b"
  by (simp add: rowRefs_def)

lemma setCell_s_grid:
  assumes "grid_at h mat rs g" and "r < length g"
  shows "grid_at (setCell_s h mat r c v) mat rs (setCell g r c v)"
    and "frame h (setCell_s h mat r c v) (insert mat (set rs))"
proof -
  note g = grid_atD [OF assms(1)]
  have rr: "r < length rs" using assms(2) g(2) by simp
  have row: "fracRow h (rs ! r) = Some (g ! r)" using g(5) assms(2) by simp
  then have bound: "rs ! r < length h" by (rule fracRow_bound)
  have eq: "setCell_s h mat r c v = h[rs ! r := FracArray ((g ! r)[c := v])]"
    using g(1) rr row by (simp add: setCell_s_def)
  have ne: "mat \<noteq> rs ! r" using g(4) rr by (metis nth_mem)
  show "grid_at (setCell_s h mat r c v) mat rs (setCell g r c v)"
  proof (rule grid_atI)
    show "rowRefs (setCell_s h mat r c v) mat = Some rs"
      using g(1) ne by (simp add: eq rowRefs_update_other)
    show "length rs = length (setCell g r c v)"
      using g(2) by (simp add: setCell_def)
    show "distinct rs" by (rule g(3))
    show "mat \<notin> set rs" by (rule g(4))
    show "fracRow (setCell_s h mat r c v) (rs ! i) = Some (setCell g r c v ! i)"
      if "i < length (setCell g r c v)" for i
    proof -
      from that have i: "i < length g" by (simp add: setCell_def)
      then have "rs ! i = rs ! r \<longleftrightarrow> i = r"
        using g(2,3) rr by (simp add: nth_eq_iff_index_eq)
      then show ?thesis
        using i g(5) [OF i] bound by (simp add: eq fracRow_update setCell_def nth_list_update)
    qed
  qed
  have "rs ! r \<in> set rs" using rr by simp
  then show "frame h (setCell_s h mat r c v) (insert mat (set rs))"
    using bound by (auto simp: eq frame_def nth_list_update)
qed

lemma findPivot_s_grid:
  assumes "grid_at h mat rs g"
  shows "findPivot_s h mat col xs = findPivot g col xs"
  by (induction xs) (simp_all add: cell_s_grid [OF assms] split: option.splits)

lemma length_swapRows [simp]: "length (swapRows g col p) = length g"
  by (simp add: swapRows_def)

lemma length_setCell [simp]: "length (setCell g r c v) = length g"
  by (simp add: setCell_def)

lemma swapRows_s_grid:
  assumes "grid_at h mat rs g" and "col < length g" and "p < length g"
  shows "\<exists>rs'. grid_at (swapRows_s h mat col p) mat rs' (swapRows g col p) \<and> set rs' = set rs"
    and "frame h (swapRows_s h mat col p) (insert mat (set rs))"
proof -
  note g = grid_atD [OF assms(1)]
  have bound: "mat < length h" using g(1) by (rule rowRefs_bound)
  show "frame h (swapRows_s h mat col p) (insert mat (set rs))"
    using g(1) bound by (auto simp: swapRows_s_def frame_def nth_list_update)
  show "\<exists>rs'. grid_at (swapRows_s h mat col p) mat rs' (swapRows g col p) \<and> set rs' = set rs"
  proof (cases "p = col")
    case True
    then show ?thesis using assms(1) by (auto simp: swapRows_s_def swapRows_def)
  next
    case False
    let ?rs' = "rs[col := rs ! p, p := rs ! col]"
    let ?h' = "h[mat := RowArray ?rs']"
    have eq: "swapRows_s h mat col p = ?h'"
      using False g(1) by (simp add: swapRows_s_def)
    have cl: "col < length rs" "p < length rs" using assms(2,3) g(2) by simp_all
    have st: "set ?rs' = set rs" using cl by simp
    have fr: "fracRow ?h' a = fracRow h a" if "a \<noteq> mat" for a
      using that by (simp add: fracRow_def)
    have "grid_at ?h' mat ?rs' (swapRows g col p)"
    proof (rule grid_atI)
      show "rowRefs ?h' mat = Some ?rs'"
        using bound by (simp add: rowRefs_def)
      show "length ?rs' = length (swapRows g col p)"
        using g(2) by simp
      show "distinct ?rs'" using g(3) cl by simp
      show "mat \<notin> set ?rs'" using g(4) st by simp
      show "fracRow ?h' (?rs' ! i) = Some (swapRows g col p ! i)"
        if "i < length (swapRows g col p)" for i
      proof -
        from that have i: "i < length g" by simp
        let ?j = "if i = p then col else if i = col then p else i"
        have j: "?j < length g" using i assms(2,3) by simp
        have "?rs' ! i = rs ! ?j"
          using i cl g(2) by (simp add: nth_list_update)
        moreover have "swapRows g col p ! i = g ! ?j"
          using i False assms(2,3) by (simp add: swapRows_def nth_list_update)
        moreover have "rs ! ?j \<noteq> mat"
          using g(4) j g(2) by (metis nth_mem)
        ultimately show ?thesis
          using g(5) [OF j] fr by simp
      qed
    qed
    with st show ?thesis unfolding eq by blast
  qed
qed

lemma normalizeRow_s_grid:
  assumes "grid_at h mat rs g" and "col < length g"
    and "normalizeRow_s h mat col pv cs = (e, h')"
  shows "\<exists>g'. grid_at h' mat rs g' \<and> length g' = length g \<and>
           frame h h' (insert mat (set rs)) \<and>
           (case normalizeRow g col pv cs of
              Inl x \<Rightarrow> e = Some x
            | Inr g'' \<Rightarrow> e = None \<and> g'' = g')"
  using assms
proof (induction cs arbitrary: h g)
  case Nil
  then show ?case by (auto simp: frame_refl)
next
  case (Cons c cs)
  note rd = cell_s_grid [OF Cons.prems(1), of col c]
  show ?case
  proof (cases "divide_u (cell g col c) pv")
    case (Inl x)
    then show ?thesis
      using Cons.prems rd by (auto simp: frame_refl)
  next
    case (Inr v)
    let ?h1 = "setCell_s h mat col c v"
    let ?g1 = "setCell g col c v"
    have g1: "grid_at ?h1 mat rs ?g1" and f1: "frame h ?h1 (insert mat (set rs))"
      using setCell_s_grid [OF Cons.prems(1,2)] by simp_all
    have l1: "col < length ?g1" using Cons.prems(2) by (simp add: setCell_def)
    have run: "normalizeRow_s ?h1 mat col pv cs = (e, h')"
      using Cons.prems(3) Inr rd by simp
    from Cons.IH [OF g1 l1 run] obtain g'
      where "grid_at h' mat rs g'" "length g' = length ?g1"
        "frame ?h1 h' (insert mat (set rs))"
        "case normalizeRow ?g1 col pv cs of Inl x \<Rightarrow> e = Some x
         | Inr g'' \<Rightarrow> e = None \<and> g'' = g'"
      by blast
    then show ?thesis
      using Inr f1 frame_trans by (auto simp: setCell_def)
  qed
qed

lemma eliminateRow_s_grid:
  assumes "grid_at h mat rs g" and "r < length g"
    and "eliminateRow_s h mat r col f cs = (e, h')"
  shows "\<exists>g'. grid_at h' mat rs g' \<and> length g' = length g \<and>
           frame h h' (insert mat (set rs)) \<and>
           (case eliminateRow g r col f cs of
              Inl x \<Rightarrow> e = Some x
            | Inr g'' \<Rightarrow> e = None \<and> g'' = g')"
  using assms
proof (induction cs arbitrary: h g)
  case Nil
  then show ?case by (auto simp: frame_refl)
next
  case (Cons c cs)
  note rd = cell_s_grid [OF Cons.prems(1)]
  show ?case
  proof (cases "multiply_u f (cell g col c)")
    case (Inl x)
    then show ?thesis
      using Cons.prems rd by (auto simp: frame_refl)
  next
    case p: (Inr p)
    show ?thesis
    proof (cases "subtract_u (cell g r c) (Some p)")
      case (Inl x)
      then show ?thesis
        using Cons.prems rd p by (auto simp: frame_refl)
    next
      case (Inr v)
      let ?h1 = "setCell_s h mat r c v"
      let ?g1 = "setCell g r c v"
      have g1: "grid_at ?h1 mat rs ?g1" and f1: "frame h ?h1 (insert mat (set rs))"
        using setCell_s_grid [OF Cons.prems(1,2)] by simp_all
      have l1: "r < length ?g1" using Cons.prems(2) by (simp add: setCell_def)
      have run: "eliminateRow_s ?h1 mat r col f cs = (e, h')"
        using Cons.prems(3) Inr p rd by simp
      from Cons.IH [OF g1 l1 run] obtain g'
        where "grid_at h' mat rs g'" "length g' = length ?g1"
          "frame ?h1 h' (insert mat (set rs))"
          "case eliminateRow ?g1 r col f cs of Inl x \<Rightarrow> e = Some x
           | Inr g'' \<Rightarrow> e = None \<and> g'' = g'"
        by blast
      then show ?thesis
        using Inr p f1 frame_trans by (auto simp: setCell_def)
    qed
  qed
qed

lemma eliminateRows_s_grid:
  assumes "grid_at h mat rs g" and "set xs \<subseteq> {..<length g}"
    and "eliminateRows_s h mat m col xs = (e, h')"
  shows "\<exists>g'. grid_at h' mat rs g' \<and> length g' = length g \<and>
           frame h h' (insert mat (set rs)) \<and>
           (case eliminateRows g m col xs of
              Inl x \<Rightarrow> e = Some x
            | Inr g'' \<Rightarrow> e = None \<and> g'' = g')"
  using assms
proof (induction xs arbitrary: h g)
  case Nil
  then show ?case by (auto simp: frame_refl)
next
  case (Cons r xs)
  from Cons.prems(2) have r: "r < length g" and xs: "set xs \<subseteq> {..<length g}" by simp_all
  show ?case
  proof (cases "r = col")
    case True
    then have "eliminateRows_s h mat m col xs = (e, h')"
      using Cons.prems(3) by simp
    from Cons.IH [OF Cons.prems(1) xs this] show ?thesis
      using True by simp
  next
    case False
    obtain e1 h1 where run1:
      "eliminateRow_s h mat r col (cell_s h mat r col) [col..<m] = (e1, h1)"
      by (cases "eliminateRow_s h mat r col (cell_s h mat r col) [col..<m]")
    then have run1': "eliminateRow_s h mat r col (cell g r col) [col..<m] = (e1, h1)"
      by (simp add: cell_s_grid [OF Cons.prems(1)])
    from eliminateRow_s_grid [OF Cons.prems(1) r run1'] obtain g1
      where g1: "grid_at h1 mat rs g1" and l1: "length g1 = length g"
        and f1: "frame h h1 (insert mat (set rs))"
        and sim1: "case eliminateRow g r col (cell g r col) [col..<m] of
                     Inl x \<Rightarrow> e1 = Some x | Inr g'' \<Rightarrow> e1 = None \<and> g'' = g1"
      by blast
    show ?thesis
    proof (cases e1)
      case (Some x)
      then have "e = Some x" "h' = h1"
        using Cons.prems(3) False run1 by simp_all
      then show ?thesis
        using g1 l1 f1 sim1 Some False by (auto split: sum.splits)
    next
      case None
      then have run: "eliminateRows_s h1 mat m col xs = (e, h')"
        using Cons.prems(3) False run1 by simp
      have xs1: "set xs \<subseteq> {..<length g1}" using xs l1 by simp
      from Cons.IH [OF g1 xs1 run] obtain g'
        where "grid_at h' mat rs g'" "length g' = length g1"
          "frame h1 h' (insert mat (set rs))"
          "case eliminateRows g1 m col xs of Inl x \<Rightarrow> e = Some x
           | Inr g'' \<Rightarrow> e = None \<and> g'' = g'"
        by blast
      then show ?thesis
        using sim1 None False l1 f1 frame_trans by (auto split: sum.splits)
    qed
  qed
qed

lemma findPivot_range: "findPivot g col xs = Inr p \<Longrightarrow> p = col \<or> p \<in> set xs"
  by (induction xs) (auto split: option.splits if_splits)

lemma pivotStep_s_grid:
  assumes "grid_at h mat rs g" and "col < n" and "n = length g"
    and "pivotStep_s h mat n m col = (e, h', t)"
  shows "\<exists>rs' g'. grid_at h' mat rs' g' \<and> set rs' = set rs \<and> length g' = length g \<and>
           frame h h' (insert mat (set rs)) \<and> t = swapOf n g col \<and>
           (case pivotStep n m g col of
              Inl x \<Rightarrow> e = Some x
            | Inr g'' \<Rightarrow> e = None \<and> g'' = g')"
proof (cases "findPivot g col [col..<n]")
  case (Inl x)
  then have "findPivot_s h mat col [col..<n] = Inl x"
    by (simp add: findPivot_s_grid [OF assms(1)])
  then have "e = Some x" "h' = h" "t = []"
    using assms(4) by (simp_all add: pivotStep_s_def)
  then show ?thesis
    using assms(1) Inl by (auto simp: frame_refl swapOf_def pivotStep_def)
next
  case (Inr p)
  then have fp: "findPivot_s h mat col [col..<n] = Inr p"
    by (simp add: findPivot_s_grid [OF assms(1)])
  from findPivot_range [OF Inr] assms(2) have p: "p < length g"
    using assms(3) by auto
  have c: "col < length g" using assms(2,3) by simp
  let ?h1 = "swapRows_s h mat col p"
  let ?g1 = "swapRows g col p"
  let ?t = "if p \<noteq> col then [(col, p)] else []"
  from swapRows_s_grid [OF assms(1) c p] obtain rs'
    where g1: "grid_at ?h1 mat rs' ?g1" and st: "set rs' = set rs"
      and f1: "frame h ?h1 (insert mat (set rs))"
    by blast
  have pv: "cell_s ?h1 mat col col = cell ?g1 col col"
    by (rule cell_s_grid [OF g1])
  obtain e2 h2 where run2:
    "normalizeRow_s ?h1 mat col (cell ?g1 col col) [col..<m] = (e2, h2)"
    by (cases "normalizeRow_s ?h1 mat col (cell ?g1 col col) [col..<m]")
  have c1: "col < length ?g1" using c by simp
  from normalizeRow_s_grid [OF g1 c1 run2] obtain g2
    where g2: "grid_at h2 mat rs' g2" and l2: "length g2 = length ?g1"
      and f2: "frame ?h1 h2 (insert mat (set rs'))"
      and sim2: "case normalizeRow ?g1 col (cell ?g1 col col) [col..<m] of
                   Inl x \<Rightarrow> e2 = Some x | Inr g'' \<Rightarrow> e2 = None \<and> g'' = g2"
    by blast
  have f12: "frame h h2 (insert mat (set rs))"
    using f1 f2 st frame_trans by simp
  have tr: "swapOf n g col = ?t"
    using Inr by (simp add: swapOf_def)
  show ?thesis
  proof (cases e2)
    case (Some x)
    then have "e = Some x" "h' = h2" "t = ?t"
      using assms(4) fp pv run2 by (simp_all add: pivotStep_s_def Let_def)
    then show ?thesis
      using g2 st l2 f12 tr sim2 Some Inr
      by (auto simp: pivotStep_def Let_def split: sum.splits)
  next
    case None
    obtain e3 h3 where run3: "eliminateRows_s h2 mat m col [0..<n] = (e3, h3)"
      by (cases "eliminateRows_s h2 mat m col [0..<n]")
    have "e = e3" "h' = h3" "t = ?t"
      using assms(4) fp pv run2 None run3 by (simp_all add: pivotStep_s_def Let_def)
    moreover have rows: "set [0..<n] \<subseteq> {..<length g2}"
      using l2 assms(3) by auto
    from eliminateRows_s_grid [OF g2 rows run3] obtain g3
      where "grid_at h3 mat rs' g3" "length g3 = length g2"
        "frame h2 h3 (insert mat (set rs'))"
        "case eliminateRows g2 m col [0..<n] of
           Inl x \<Rightarrow> e3 = Some x | Inr g'' \<Rightarrow> e3 = None \<and> g'' = g3"
      by blast
    ultimately show ?thesis
      using st l2 f12 tr sim2 None Inr frame_trans
      by (auto simp: pivotStep_def Let_def split: sum.splits)
  qed
qed

lemma eliminationLoop_s_grid:
  assumes "grid_at h mat rs g" and "set cols \<subseteq> {..<n}" and "n = length g"
    and "eliminationLoop_s h mat n m cols = (e, h', t)"
  shows "\<exists>rs' g'. grid_at h' mat rs' g' \<and> set rs' = set rs \<and> length g' = length g \<and>
           frame h h' (insert mat (set rs)) \<and> t = swapTrace n m g cols \<and>
           (case eliminationLoop n m g cols of
              Inl x \<Rightarrow> e = Some x
            | Inr g'' \<Rightarrow> e = None \<and> g'' = g')"
  using assms
proof (induction cols arbitrary: h g rs t e h')
  case Nil
  then show ?case by (auto simp: frame_refl)
next
  case (Cons col cols)
  from Cons.prems(2) have col: "col < n" and cols: "set cols \<subseteq> {..<n}" by simp_all
  obtain e1 h1 t1 where run1: "pivotStep_s h mat n m col = (e1, h1, t1)"
    by (cases "pivotStep_s h mat n m col") auto
  from pivotStep_s_grid [OF Cons.prems(1) col Cons.prems(3) run1] obtain rs1 g1
    where g1: "grid_at h1 mat rs1 g1" and s1: "set rs1 = set rs"
      and l1: "length g1 = length g" and f1: "frame h h1 (insert mat (set rs))"
      and t1: "t1 = swapOf n g col"
      and sim1: "case pivotStep n m g col of
                   Inl x \<Rightarrow> e1 = Some x | Inr g'' \<Rightarrow> e1 = None \<and> g'' = g1"
    by blast
  show ?case
  proof (cases e1)
    case (Some x)
    then have "e = Some x" "h' = h1" "t = t1"
      using Cons.prems(4) run1 by simp_all
    then show ?thesis
      using g1 s1 l1 f1 t1 sim1 Some by (auto split: sum.splits)
  next
    case None
    obtain e2 h2 t2 where run2: "eliminationLoop_s h1 mat n m cols = (e2, h2, t2)"
      by (cases "eliminationLoop_s h1 mat n m cols") auto
    have res: "e = e2" "h' = h2" "t = t1 @ t2"
      using Cons.prems(4) run1 None run2 by simp_all
    have n1: "n = length g1" using l1 Cons.prems(3) by simp
    from Cons.IH [OF g1 cols n1 run2] obtain rs2 g2
      where "grid_at h2 mat rs2 g2" "set rs2 = set rs1" "length g2 = length g1"
        "frame h1 h2 (insert mat (set rs1))" "t2 = swapTrace n m g1 cols"
        "case eliminationLoop n m g1 cols of
           Inl x \<Rightarrow> e2 = Some x | Inr g'' \<Rightarrow> e2 = None \<and> g'' = g2"
      by blast
    then show ?thesis
      using res s1 l1 f1 t1 sim1 None frame_trans
      by (auto split: sum.splits)
  qed
qed

lemma extractSolution_s_grid:
  assumes "grid_at h mat rs g" and "k \<le> length g"
  shows "extractSolution_s h mat m [k..<length g] = extractSolution m (drop k g)"
  using assms(2)
proof (induction "length g - k" arbitrary: k)
  case 0
  then show ?case by simp
next
  case (Suc d)
  then have k: "k < length g" by simp
  have idx: "[k..<length g] = k # [Suc k..<length g]"
    using k by (rule upt_conv_Cons)
  have dr: "drop k g = g ! k # drop (Suc k) g"
    using k by (simp add: Cons_nth_drop_Suc)
  have hd: "(if 0 < m then cell_s h mat k (m - 1) else None) = lastColumn m (g ! k)"
    using k by (simp add: cell_s_grid [OF assms(1)] cell_def lastColumn_def)
  have "extractSolution_s h mat m [Suc k..<length g] = extractSolution m (drop (Suc k) g)"
    using Suc.hyps(1) [of "Suc k"] Suc.hyps(2) k by simp
  then show ?case
    unfolding idx dr by (simp only: extractSolution_s.simps extractSolution.simps hd)
qed

lemma intRow_append: "intRow h r = Some xs \<Longrightarrow> intRow (h @ ext) r = Some xs"
  by (auto simp: intRow_def nth_append split: if_splits)

lemma copyRows_ext:
  assumes "copyRows h rs = (res, h')"
  shows "\<exists>ext. h' = h @ ext \<and>
           (\<forall>as. res = Inr as \<longrightarrow>
              as = [length h..<length h + length rs] \<and>
              (\<exists>g. ext = map FracArray g \<and> length g = length rs \<and>
                 (\<forall>M. map (intRow h) rs = map Some M \<longrightarrow> g = map (map makeFraction) M)))"
  using assms
proof (induction rs arbitrary: h res h')
  case Nil
  then show ?case by auto
next
  case (Cons r rs)
  show ?case
  proof (cases "intRow h r")
    case None
    then have "res = Inl TypeError" "h' = h" using Cons.prems by simp_all
    then show ?thesis by simp
  next
    case (Some xs)
    let ?h1 = "h @ [FracArray (map makeFraction xs)]"
    obtain res2 h2 where run2: "copyRows ?h1 rs = (res2, h2)"
      by (cases "copyRows ?h1 rs")
    from Cons.IH [OF run2] obtain ext2 where ext2: "h2 = ?h1 @ ext2"
      and ok2: "\<forall>as. res2 = Inr as \<longrightarrow>
              as = [length ?h1..<length ?h1 + length rs] \<and>
              (\<exists>g. ext2 = map FracArray g \<and> length g = length rs \<and>
                 (\<forall>M. map (intRow ?h1) rs = map Some M \<longrightarrow> g = map (map makeFraction) M))"
      by blast
    have h': "h' = h2" and res: "res = (case res2 of Inl e \<Rightarrow> Inl e | Inr as \<Rightarrow> Inr (length h # as))"
      using Cons.prems Some run2 by (auto simp: alloc_def split: sum.splits)
    have e: "h' = h @ (FracArray (map makeFraction xs) # ext2)"
      using h' ext2 by simp
    have "as = [length h..<length h + length (r # rs)] \<and>
          (\<exists>g. FracArray (map makeFraction xs) # ext2 = map FracArray g \<and>
               length g = length (r # rs) \<and>
               (\<forall>M. map (intRow h) (r # rs) = map Some M \<longrightarrow> g = map (map makeFraction) M))"
      if "res = Inr as" for as
    proof -
      from that res obtain as2 where as2: "res2 = Inr as2" "as = length h # as2"
        by (cases res2) auto
      from ok2 as2(1) obtain g2 where
        a2: "as2 = [length ?h1..<length ?h1 + length rs]"
        and g2: "ext2 = map FracArray g2" "length g2 = length rs"
        and m2: "\<forall>M. map (intRow ?h1) rs = map Some M \<longrightarrow> g2 = map (map makeFraction) M"
        by blast
      have "[length h..<length h + length (r # rs)] =
            length h # [Suc (length h)..<length h + length (r # rs)]"
        by (rule upt_conv_Cons) simp
      then have 1: "as = [length h..<length h + length (r # rs)]"
        unfolding as2(2) a2 by simp
      let ?g = "map makeFraction xs # g2"
      have 2: "FracArray (map makeFraction xs) # ext2 = map FracArray ?g"
        using g2(1) by simp
      have 3: "length ?g = length (r # rs)" using g2(2) by simp
      have 4: "?g = map (map makeFraction) M" if M: "map (intRow h) (r # rs) = map Some M" for M
      proof -
        from M Some obtain M' where M': "M = xs # M'" "map (intRow h) rs = map Some M'"
          by (cases M) auto
        have "map (intRow ?h1) rs = map Some M'"
        proof (rule nth_equalityI)
          show "length (map (intRow ?h1) rs) = length (map Some M')"
            using M'(2) by (metis length_map)
          fix i assume "i < length (map (intRow ?h1) rs)"
          then have i: "i < length rs" by simp
          from M'(2) have "map (intRow h) rs ! i = map Some M' ! i" by simp
          moreover have "length M' = length rs" using M'(2) by (metis length_map)
          ultimately have "intRow h (rs ! i) = Some (M' ! i)" using i by simp
          then have "intRow ?h1 (rs ! i) = Some (M' ! i)" by (rule intRow_append)
          then show "map (intRow ?h1) rs ! i = map Some M' ! i"
            using i \<open>length M' = length rs\<close> by simp
        qed
        with m2 have "g2 = map (map makeFraction) M'" by blast
        then show ?thesis using M'(1) by simp
      qed
      from 4 have 5: "\<forall>M. map (intRow h) (r # rs) = map Some M \<longrightarrow> ?g = map (map makeFraction) M"
        by blast
      show ?thesis
        using 1 2 3 5 by (intro conjI exI [of _ ?g])
    qed
    with e show ?thesis by blast
  qed
qed

lemma copyRows_typed:
  assumes "map (intRow h) rs = map Some M"
  shows "\<exists>as h'. copyRows h rs = (Inr as, h')"
  using assms
proof (induction rs arbitrary: h M)
  case Nil
  then show ?case by simp
next
  case (Cons r rs)
  then obtain xs M' where M: "M = xs # M'" and r: "intRow h r = Some xs"
    and rest: "map (intRow h) rs = map Some M'"
    by (cases M) auto
  let ?h1 = "h @ [FracArray (map makeFraction xs)]"
  have len: "length M' = length rs" using rest by (metis length_map)
  have "map (intRow ?h1) rs = map Some M'"
  proof (rule nth_equalityI)
    show "length (map (intRow ?h1) rs) = length (map Some M')" using len by simp
    fix i assume "i < length (map (intRow ?h1) rs)"
    then have i: "i < length rs" by simp
    from rest have "map (intRow h) rs ! i = map Some M' ! i" by simp
    then have "intRow h (rs ! i) = Some (M' ! i)" using i len by simp
    then have "intRow ?h1 (rs ! i) = Some (M' ! i)" by (rule intRow_append)
    then show "map (intRow ?h1) rs ! i = map Some M' ! i" using i len by simp
  qed
  from Cons.IH [OF this] obtain as h' where "copyRows ?h1 rs = (Inr as, h')" by blast
  then show ?case using r by (simp add: alloc_def)
qed

lemma after_copy:
  assumes "copyRows h rs = (Inr as, h1)"
  shows "\<exists>g0. grid_at (h1 @ [RowArray as]) (length h1) as g0 \<and> length g0 = length rs \<and>
           length h \<le> length h1 \<and> (\<forall>p<length h. (h1 @ [RowArray as]) ! p = h ! p) \<and>
           (\<forall>a\<in>insert (length h1) (set as). length h \<le> a) \<and>
           (\<forall>M. map (intRow h) rs = map Some M \<longrightarrow> g0 = map (map makeFraction) M)"
proof -
  from copyRows_ext [OF assms] obtain g0
    where h1: "h1 = h @ map FracArray g0" and as: "as = [length h..<length h + length rs]"
      and l0: "length g0 = length rs"
      and M: "\<forall>M. map (intRow h) rs = map Some M \<longrightarrow> g0 = map (map makeFraction) M"
    by blast
  let ?h2 = "h1 @ [RowArray as]"
  have len1: "length h1 = length h + length rs" using h1 l0 by simp
  have "grid_at ?h2 (length h1) as g0"
  proof (rule grid_atI)
    show "rowRefs ?h2 (length h1) = Some as" by (simp add: rowRefs_def)
    show "length as = length g0" using as l0 by simp
    show "distinct as" using as by simp
    show "length h1 \<notin> set as" using as len1 by simp
    show "fracRow ?h2 (as ! i) = Some (g0 ! i)" if "i < length g0" for i
    proof -
      have "as ! i = length h + i" using as that l0 by simp
      moreover have "?h2 ! (length h + i) = FracArray (g0 ! i)"
        using that h1 by (simp add: nth_append)
      ultimately show ?thesis
        using that len1 l0 by (simp add: fracRow_def)
    qed
  qed
  moreover have "\<forall>p<length h. ?h2 ! p = h ! p"
    using h1 by (simp add: nth_append)
  moreover have "\<forall>a\<in>insert (length h1) (set as). length h \<le> a"
    using as len1 by auto
  ultimately show ?thesis using l0 len1 M by auto
qed

text \<open>The run of the store-level solver once the working matrix is built.\<close>

lemma solve_s_tail:
  assumes "grid_at h2 mat as g0" and "n = length g0"
    and "eliminationLoop_s h2 mat n m [0..<n] = (e, h3, t)"
    and "res = (case e of
                  Some x \<Rightarrow> (Inl x, h3, t)
                | None \<Rightarrow>
                    (case extractSolution_s h3 mat m [0..<n] of
                       Inl x \<Rightarrow> (Inl x, h3, t)
                     | Inr xs \<Rightarrow> (case alloc h3 (FracArray xs) of (h4, a) \<Rightarrow> (Inr a, h4, t))))"
  shows "frame h2 (take (length h2) (fst (snd res))) (insert mat (set as))"
    and "length h2 \<le> length (fst (snd res))"
    and "outcome (fst (snd res)) (fst res) =
           (case eliminationLoop n m g0 [0..<n] of
              Inl x \<Rightarrow> Inl x
            | Inr g' \<Rightarrow> extractSolution m g')"
    and "snd (snd res) = swapTrace n m g0 [0..<n]"
proof -
  from eliminationLoop_s_grid [OF assms(1) upt_below assms(2,3)] obtain rs' g'
    where g': "grid_at h3 mat rs' g'" and l': "length g' = length g0"
      and fr: "frame h2 h3 (insert mat (set as))" and t: "t = swapTrace n m g0 [0..<n]"
      and sim: "case eliminationLoop n m g0 [0..<n] of
                  Inl x \<Rightarrow> e = Some x | Inr g'' \<Rightarrow> e = None \<and> g'' = g'"
    by blast
  have len3: "length h3 = length h2" using fr by (simp add: frame_def)
  have ex: "extractSolution_s h3 mat m [0..<n] = extractSolution m g'"
    using extractSolution_s_grid [OF g', of 0 m] l' assms(2) by simp
  have t3: "snd (snd res) = t"
    unfolding assms(4) by (simp add: alloc_def split: option.splits sum.splits)
  then show "snd (snd res) = swapTrace n m g0 [0..<n]" using t by simp
  have st: "fst (snd res) = h3 \<or> (\<exists>xs. fst (snd res) = h3 @ [FracArray xs])"
    unfolding assms(4) by (simp add: alloc_def split: option.splits sum.splits)
  then have tk: "take (length h2) (fst (snd res)) = h3"
    using len3 by auto
  show "frame h2 (take (length h2) (fst (snd res))) (insert mat (set as))"
    unfolding tk by (rule fr)
  show "length h2 \<le> length (fst (snd res))"
    using st len3 by auto
  show "outcome (fst (snd res)) (fst res) =
           (case eliminationLoop n m g0 [0..<n] of
              Inl x \<Rightarrow> Inl x
            | Inr g' \<Rightarrow> extractSolution m g')"
  proof (cases "eliminationLoop n m g0 [0..<n]")
    case (Inl x)
    with sim have "e = Some x" by simp
    then show ?thesis
      unfolding assms(4) using Inl by (simp add: outcome_def)
  next
    case (Inr g'')
    with sim have e: "e = None" and gg: "g'' = g'" by simp_all
    show ?thesis
    proof (cases "extractSolution m g'")
      case (Inl x)
      then show ?thesis
        unfolding assms(4) using e gg Inr ex by (simp add: outcome_def)
    next
      case xs: (Inr xs)
      then show ?thesis
        unfolding assms(4) using e gg Inr ex
        by (simp add: outcome_def alloc_def fracRow_def)
    qed
  qed
qed

lemma solve_s_frame:
  assumes "solveLinearEquations_s h a = (r, h', t)"
  shows "length h \<le> length h' \<and> (\<forall>p<length h. h' ! p = h ! p)"
proof (cases "rowRefs h a")
  case None
  then have "h' = h" using assms by (simp add: solveLinearEquations_s_def)
  then show ?thesis by simp
next
  case (Some rs)
  show ?thesis
  proof (cases rs)
    case Nil
    then have "h' = h" using assms Some by (simp add: solveLinearEquations_s_def)
    then show ?thesis by simp
  next
    case (Cons row0 rest)
    show ?thesis
    proof (cases "arrayLength h row0")
      case None
      then have "h' = h" using assms Some Cons by (simp add: solveLinearEquations_s_def)
      then show ?thesis by simp
    next
      case m: (Some m)
      obtain c h1 where cp: "copyRows h rs = (c, h1)" by (cases "copyRows h rs")
      show ?thesis
      proof (cases c)
        case (Inl x)
        then have "h' = h1"
          using assms Some Cons m cp by (simp add: solveLinearEquations_s_def)
        moreover from copyRows_ext [OF cp] obtain ext where "h1 = h @ ext" by blast
        ultimately show ?thesis by (simp add: nth_append)
      next
        case (Inr as)
        let ?h2 = "h1 @ [RowArray as]"
        let ?mat = "length h1"
        let ?n = "length rs"
        from after_copy [OF cp [unfolded Inr]] obtain g0
          where g0: "grid_at ?h2 ?mat as g0" and l0: "length g0 = length rs"
            and le: "length h \<le> length h1" and same: "\<forall>p<length h. ?h2 ! p = h ! p"
            and fresh: "\<forall>a\<in>insert ?mat (set as). length h \<le> a"
          by blast
        obtain e h3 t3 where lp: "eliminationLoop_s ?h2 ?mat ?n m [0..<?n] = (e, h3, t3)"
          by (cases "eliminationLoop_s ?h2 ?mat ?n m [0..<?n]") auto
        define res where "res = (case e of
                  Some x \<Rightarrow> (Inl x, h3, t3)
                | None \<Rightarrow>
                    (case extractSolution_s h3 ?mat m [0..<?n] of
                       Inl x \<Rightarrow> (Inl x, h3, t3)
                     | Inr xs \<Rightarrow> (case alloc h3 (FracArray xs) of (h4, a) \<Rightarrow> (Inr a, h4, t3))))"
        have "solveLinearEquations_s h a = res"
          using Some Cons m cp Inr lp
          by (simp add: solveLinearEquations_s_def res_def alloc_def Let_def split: option.splits)
        with assms have res: "res = (r, h', t)" by simp
        have n0: "?n = length g0" using l0 by simp
        from solve_s_tail(1,2) [OF g0 n0 lp res_def]
        have fr: "frame ?h2 (take (length ?h2) h') (insert ?mat (set as))"
          and ln: "length ?h2 \<le> length h'"
          unfolding res by simp_all
        have "h' ! p = h ! p" if "p < length h" for p
        proof -
          have p2: "p < length ?h2" using that le by simp
          have "p \<notin> insert ?mat (set as)" using fresh that by auto
          with fr p2 have "take (length ?h2) h' ! p = ?h2 ! p"
            by (simp add: frame_def)
          then show ?thesis using same that p2 by simp
        qed
        then show ?thesis using ln le by simp
      qed
    qed
  qed
qed

lemma solve_s_sim:
  assumes "matrix_at h a M" and "solveLinearEquations_s h a = (r, h', t)"
  shows "outcome h' r = solveLinearEquations M \<and> t = solveSwaps M"
proof -
  from assms(1) obtain rs where rs: "rowRefs h a = Some rs"
    and typed: "map (intRow h) rs = map Some M"
    by (auto simp: matrix_at_def split: option.splits)
  have len: "length rs = length M" using typed by (metis length_map)
  show ?thesis
  proof (cases M)
    case Nil
    then have "rs = []" using len by simp
    then have "r = Inl TypeError" "t = []"
      using assms(2) rs by (simp_all add: solveLinearEquations_s_def)
    then show ?thesis
      using Nil by (simp add: outcome_def solveLinearEquations_def solveSwaps_def)
  next
    case (Cons row0 M')
    then obtain r0 rest where rsc: "rs = r0 # rest" using len by (cases rs) auto
    have "intRow h r0 = Some row0" using typed Cons rsc by simp
    then have m: "arrayLength h r0 = Some (length row0)"
      by (auto simp: intRow_def arrayLength_def split: if_splits array.splits)
    from copyRows_typed [OF typed] obtain as h1 where cp: "copyRows h rs = (Inr as, h1)"
      by blast
    let ?h2 = "h1 @ [RowArray as]"
    let ?mat = "length h1"
    let ?n = "length rs"
    let ?m = "length row0"
    from after_copy [OF cp] typed obtain g0
      where g0: "grid_at ?h2 ?mat as g0" and l0: "length g0 = length rs"
        and gM: "g0 = map (map makeFraction) M"
      by blast
    obtain e h3 t3 where lp: "eliminationLoop_s ?h2 ?mat ?n ?m [0..<?n] = (e, h3, t3)"
      by (cases "eliminationLoop_s ?h2 ?mat ?n ?m [0..<?n]") auto
    define res where "res = (case e of
              Some x \<Rightarrow> (Inl x, h3, t3)
            | None \<Rightarrow>
                (case extractSolution_s h3 ?mat ?m [0..<?n] of
                   Inl x \<Rightarrow> (Inl x, h3, t3)
                 | Inr xs \<Rightarrow> (case alloc h3 (FracArray xs) of (h4, a) \<Rightarrow> (Inr a, h4, t3))))"
    have "solveLinearEquations_s h a = res"
      using rs rsc m cp lp
      by (simp add: solveLinearEquations_s_def res_def alloc_def Let_def split: option.splits)
    with assms(2) have res: "res = (r, h', t)" by simp
    have n0: "?n = length g0" using l0 by simp
    from solve_s_tail(3,4) [OF g0 n0 lp res_def]
    have "outcome h' r = (case eliminationLoop ?n ?m g0 [0..<?n] of
              Inl x \<Rightarrow> Inl x | Inr g' \<Rightarrow> extractSolution ?m g')"
      and "t = swapTrace ?n ?m g0 [0..<?n]"
      unfolding res by simp_all
    then show ?thesis
      using Cons len gM by (simp add: solveLinearEquations_def solveSwaps_def Let_def)
  qed
qed

lemma matrix_at_frame:
  assumes "matrix_at h a M" and "length h \<le> length h'" and "\<forall>p<length h. h' ! p = h ! p"
  shows "matrix_at h' a M"
proof -
  from assms(1) obtain rs where rs: "rowRefs h a = Some rs"
    and typed: "map (intRow h) rs = map Some M"
    by (auto simp: matrix_at_def split: option.splits)
  have "a < length h" using rs by (rule rowRefs_bound)
  then have rs': "rowRefs h' a = Some rs"
    using rs assms(2,3) by (simp add: rowRefs_def)
  have "intRow h' x = intRow h x" if "x \<in> set rs" for x
  proof -
    from that have "intRow h x \<in> set (map (intRow h) rs)" by simp
    with typed obtain xs where "intRow h x = Some xs" by auto
    then have "x < length h" by (simp add: intRow_def split: if_splits)
    then show ?thesis using assms(2,3) by (simp add: intRow_def)
  qed
  then have "map (intRow h') rs = map (intRow h) rs" by simp
  with typed rs' show ?thesis by (simp add: matrix_at_def)
qed

subsection \<open>The caller's arrays and repeated calls\<close>

text \<open>
  C10: \<open>solveLinearEquations\<close> does not mutate its argument. Whatever the call returns or
  raises, every array that existed before the call is unchanged after it (the store only
  grows), so a matrix of BigInts that the caller passed reads the same afterwards, row by
  row and entry by entry; the writes of the elimination and the row exchanges go to arrays
  allocated by the call itself.
\<close>

theorem solveLinearEquations_preserves_input:
  assumes "solveLinearEquations_s h matrix = (r, h', t)"
  shows "length h \<le> length h' \<and> (\<forall>p<length h. h' ! p = h ! p) \<and>
         (\<forall>M. matrix_at h matrix M \<longrightarrow> matrix_at h' matrix M)"
proof -
  from solve_s_frame [OF assms]
  have fr: "length h \<le> length h'" "\<forall>p<length h. h' ! p = h ! p" by simp_all
  have "matrix_at h' matrix M" if "matrix_at h matrix M" for M
    using that fr by (rule matrix_at_frame)
  with fr show ?thesis by blast
qed


theorem solveLinearEquations_preserves_input_witness:
  "solveLinearEquations_s [IntArray [0, 2, 4], IntArray [1, 1, 3], RowArray [0, 1]] 2 =
     (Inr 6,
      [IntArray [0, 2, 4], IntArray [1, 1, 3], RowArray [0, 1],
       FracArray [\<lparr>num = 0, den = 1\<rparr>, \<lparr>num = 1, den = 1\<rparr>, \<lparr>num = 2, den = 1\<rparr>],
       FracArray [\<lparr>num = 1, den = 1\<rparr>, \<lparr>num = 0, den = 1\<rparr>, \<lparr>num = 1, den = 1\<rparr>],
       RowArray [4, 3],
       FracArray [\<lparr>num = 1, den = 1\<rparr>, \<lparr>num = 2, den = 1\<rparr>]],
      [(0, 1)]) \<and>
   matrix_at [IntArray [0, 2, 4], IntArray [1, 1, 3], RowArray [0, 1]] 2 [[0, 2, 4], [1, 1, 3]] \<and>
   matrix_at
     [IntArray [0, 2, 4], IntArray [1, 1, 3], RowArray [0, 1],
      FracArray [\<lparr>num = 0, den = 1\<rparr>, \<lparr>num = 1, den = 1\<rparr>, \<lparr>num = 2, den = 1\<rparr>],
      FracArray [\<lparr>num = 1, den = 1\<rparr>, \<lparr>num = 0, den = 1\<rparr>, \<lparr>num = 1, den = 1\<rparr>],
      RowArray [4, 3],
      FracArray [\<lparr>num = 1, den = 1\<rparr>, \<lparr>num = 2, den = 1\<rparr>]] 2 [[0, 2, 4], [1, 1, 3]]"
proof -
  let ?h = "[IntArray [0, 2, 4], IntArray [1, 1, 3], RowArray [0, 1]]"
  let ?h' = "[IntArray [0, 2, 4], IntArray [1, 1, 3], RowArray [0, 1],
       FracArray [\<lparr>num = 0, den = 1\<rparr>, \<lparr>num = 1, den = 1\<rparr>, \<lparr>num = 2, den = 1\<rparr>],
       FracArray [\<lparr>num = 1, den = 1\<rparr>, \<lparr>num = 0, den = 1\<rparr>, \<lparr>num = 1, den = 1\<rparr>],
       RowArray [4, 3],
       FracArray [\<lparr>num = 1, den = 1\<rparr>, \<lparr>num = 2, den = 1\<rparr>]]"
  have run: "solveLinearEquations_s ?h 2 = (Inr 6, ?h', [(0, 1)])"
    by code_simp
  have m: "matrix_at ?h 2 [[0, 2, 4], [1, 1, 3]]"
    by (simp add: matrix_at_def rowRefs_def intRow_def)
  have "\<forall>M. matrix_at ?h 2 M \<longrightarrow> matrix_at ?h' 2 M"
    using solveLinearEquations_preserves_input [OF run] by (elim conjE)
  then have "matrix_at ?h' 2 [[0, 2, 4], [1, 1, 3]]"
    using m by (elim allE impE)
  with run m show ?thesis by (intro conjI)
qed

lemma findPivot_lowest:
  assumes "findPivot g col xs = Inr p" and "sorted xs" and "r \<in> set xs"
    and "cell g r col = Some f" and "num f \<noteq> 0"
  shows "p \<in> set xs \<and> p \<le> r \<and> (\<exists>f'. cell g p col = Some f' \<and> num f' \<noteq> 0)"
  using assms(1,2,3)
proof (induction xs)
  case Nil
  then show ?case by simp
next
  case (Cons x xs)
  from Cons.prems(1) obtain fx where fx: "cell g x col = Some fx"
    by (cases "cell g x col") auto
  show ?case
  proof (cases "num fx \<noteq> 0")
    case True
    then have "p = x" using Cons.prems(1) fx by simp
    moreover have "x \<le> r" using Cons.prems(2,3) by auto
    ultimately show ?thesis using fx True by simp
  next
    case False
    then have run: "findPivot g col xs = Inr p" using Cons.prems(1) fx by simp
    have "r \<noteq> x" using False fx assms(4,5) by auto
    then have "r \<in> set xs" using Cons.prems(3) by simp
    moreover have "sorted xs" using Cons.prems(2) by simp
    ultimately show ?thesis using Cons.IH run by simp
  qed
qed

text \<open>
  C8: the pivot search returns the lowest-index row among the rows \<open>col\<close> to \<open>n - 1\<close>
  that has a nonzero entry in column \<open>col\<close> (it is at most any row \<open>r\<close> of that range
  with a nonzero entry, and has a nonzero entry itself); and two calls of
  \<open>solveLinearEquations\<close> on the same matrix, the second on the store the first one left,
  perform the same row exchanges and return the same solution or raise the same error,
  namely those of the list-level solver on the matrix the store holds.
\<close>

theorem solver_deterministic:
  "(findPivot g col [col..<n] = Inr p \<and> col \<le> r \<and> r < n \<and>
    cell g r col = Some f \<and> num f \<noteq> 0 \<longrightarrow>
      col \<le> p \<and> p \<le> r \<and> (\<exists>f'. cell g p col = Some f' \<and> num f' \<noteq> 0)) \<and>
   (matrix_at h a M \<and> solveLinearEquations_s h a = (r1, h1, t1) \<and>
    solveLinearEquations_s h1 a = (r2, h2, t2) \<longrightarrow>
      outcome h1 r1 = outcome h2 r2 \<and> t1 = t2 \<and>
      outcome h1 r1 = solveLinearEquations M \<and> t1 = solveSwaps M)"
proof (intro conjI impI)
  assume a: "findPivot g col [col..<n] = Inr p \<and> col \<le> r \<and> r < n \<and>
             cell g r col = Some f \<and> num f \<noteq> 0"
  then have "r \<in> set [col..<n]" by simp
  with a have "p \<in> set [col..<n] \<and> p \<le> r \<and> (\<exists>f'. cell g p col = Some f' \<and> num f' \<noteq> 0)"
    by (intro findPivot_lowest [of g col "[col..<n]" p r f]) simp_all
  then show "col \<le> p" and "p \<le> r" and "\<exists>f'. cell g p col = Some f' \<and> num f' \<noteq> 0"
    by simp_all
next
  assume b: "matrix_at h a M \<and> solveLinearEquations_s h a = (r1, h1, t1) \<and>
             solveLinearEquations_s h1 a = (r2, h2, t2)"
  then have m: "matrix_at h a M" and run1: "solveLinearEquations_s h a = (r1, h1, t1)"
    and run2: "solveLinearEquations_s h1 a = (r2, h2, t2)" by simp_all
  from solve_s_sim [OF m run1]
  have s1: "outcome h1 r1 = solveLinearEquations M" "t1 = solveSwaps M" by simp_all
  from solve_s_frame [OF run1]
  have "length h \<le> length h1" "\<forall>p<length h. h1 ! p = h ! p" by simp_all
  with m have m1: "matrix_at h1 a M" by (rule matrix_at_frame)
  from solve_s_sim [OF m1 run2]
  have s2: "outcome h2 r2 = solveLinearEquations M" "t2 = solveSwaps M" by simp_all
  show "outcome h1 r1 = outcome h2 r2" using s1 s2 by simp
  show "t1 = t2" using s1 s2 by simp
  show "outcome h1 r1 = solveLinearEquations M" by (rule s1)
  show "t1 = solveSwaps M" by (rule s1)
qed

theorem solver_deterministic_witness:
  "findPivot (map (map makeFraction) [[0, 2, 4], [1, 1, 3]]) 0 [0..<2] = Inr 1 \<and>
   cell (map (map makeFraction) [[0, 2, 4], [1, 1, 3]]) 1 0 = Some \<lparr>num = 1, den = 1\<rparr> \<and>
   matrix_at [IntArray [0, 2, 4], IntArray [1, 1, 3], RowArray [0, 1]] 2 [[0, 2, 4], [1, 1, 3]] \<and>
   solveLinearEquations_s [IntArray [0, 2, 4], IntArray [1, 1, 3], RowArray [0, 1]] 2 =
     (Inr 6,
      [IntArray [0, 2, 4], IntArray [1, 1, 3], RowArray [0, 1],
       FracArray [\<lparr>num = 0, den = 1\<rparr>, \<lparr>num = 1, den = 1\<rparr>, \<lparr>num = 2, den = 1\<rparr>],
       FracArray [\<lparr>num = 1, den = 1\<rparr>, \<lparr>num = 0, den = 1\<rparr>, \<lparr>num = 1, den = 1\<rparr>],
       RowArray [4, 3],
       FracArray [\<lparr>num = 1, den = 1\<rparr>, \<lparr>num = 2, den = 1\<rparr>]],
      [(0, 1)]) \<and>
   solveLinearEquations_s
     [IntArray [0, 2, 4], IntArray [1, 1, 3], RowArray [0, 1],
      FracArray [\<lparr>num = 0, den = 1\<rparr>, \<lparr>num = 1, den = 1\<rparr>, \<lparr>num = 2, den = 1\<rparr>],
      FracArray [\<lparr>num = 1, den = 1\<rparr>, \<lparr>num = 0, den = 1\<rparr>, \<lparr>num = 1, den = 1\<rparr>],
      RowArray [4, 3],
      FracArray [\<lparr>num = 1, den = 1\<rparr>, \<lparr>num = 2, den = 1\<rparr>]] 2 =
     (Inr 10,
      [IntArray [0, 2, 4], IntArray [1, 1, 3], RowArray [0, 1],
       FracArray [\<lparr>num = 0, den = 1\<rparr>, \<lparr>num = 1, den = 1\<rparr>, \<lparr>num = 2, den = 1\<rparr>],
       FracArray [\<lparr>num = 1, den = 1\<rparr>, \<lparr>num = 0, den = 1\<rparr>, \<lparr>num = 1, den = 1\<rparr>],
       RowArray [4, 3],
       FracArray [\<lparr>num = 1, den = 1\<rparr>, \<lparr>num = 2, den = 1\<rparr>],
       FracArray [\<lparr>num = 0, den = 1\<rparr>, \<lparr>num = 1, den = 1\<rparr>, \<lparr>num = 2, den = 1\<rparr>],
       FracArray [\<lparr>num = 1, den = 1\<rparr>, \<lparr>num = 0, den = 1\<rparr>, \<lparr>num = 1, den = 1\<rparr>],
       RowArray [8, 7],
       FracArray [\<lparr>num = 1, den = 1\<rparr>, \<lparr>num = 2, den = 1\<rparr>]],
      [(0, 1)]) \<and>
   solveLinearEquations [[0, 2, 4], [1, 1, 3]] = Inr [\<lparr>num = 1, den = 1\<rparr>, \<lparr>num = 2, den = 1\<rparr>] \<and>
   solveSwaps [[0, 2, 4], [1, 1, 3]] = [(0, 1)] \<and>
   (\<exists>f'. cell (map (map makeFraction) [[0, 2, 4], [1, 1, 3]]) 1 0 = Some f' \<and> num f' \<noteq> 0)"
proof -
  let ?g = "map (map makeFraction) [[0, 2, 4], [1, 1, 3]]"
  let ?h = "[IntArray [0, 2, 4], IntArray [1, 1, 3], RowArray [0, 1]]"
  let ?h1 = "[IntArray [0, 2, 4], IntArray [1, 1, 3], RowArray [0, 1],
       FracArray [\<lparr>num = 0, den = 1\<rparr>, \<lparr>num = 1, den = 1\<rparr>, \<lparr>num = 2, den = 1\<rparr>],
       FracArray [\<lparr>num = 1, den = 1\<rparr>, \<lparr>num = 0, den = 1\<rparr>, \<lparr>num = 1, den = 1\<rparr>],
       RowArray [4, 3],
       FracArray [\<lparr>num = 1, den = 1\<rparr>, \<lparr>num = 2, den = 1\<rparr>]]"
  let ?h2 = "[IntArray [0, 2, 4], IntArray [1, 1, 3], RowArray [0, 1],
       FracArray [\<lparr>num = 0, den = 1\<rparr>, \<lparr>num = 1, den = 1\<rparr>, \<lparr>num = 2, den = 1\<rparr>],
       FracArray [\<lparr>num = 1, den = 1\<rparr>, \<lparr>num = 0, den = 1\<rparr>, \<lparr>num = 1, den = 1\<rparr>],
       RowArray [4, 3],
       FracArray [\<lparr>num = 1, den = 1\<rparr>, \<lparr>num = 2, den = 1\<rparr>],
       FracArray [\<lparr>num = 0, den = 1\<rparr>, \<lparr>num = 1, den = 1\<rparr>, \<lparr>num = 2, den = 1\<rparr>],
       FracArray [\<lparr>num = 1, den = 1\<rparr>, \<lparr>num = 0, den = 1\<rparr>, \<lparr>num = 1, den = 1\<rparr>],
       RowArray [8, 7],
       FracArray [\<lparr>num = 1, den = 1\<rparr>, \<lparr>num = 2, den = 1\<rparr>]]"
  have fp: "findPivot ?g 0 [0..<2] = Inr 1"
    by code_simp
  have c: "cell ?g 1 0 = Some \<lparr>num = 1, den = 1\<rparr>"
    by (simp add: cell_def makeFraction_def)
  have m: "matrix_at ?h 2 [[0, 2, 4], [1, 1, 3]]"
    by (simp add: matrix_at_def rowRefs_def intRow_def)
  have run1: "solveLinearEquations_s ?h 2 = (Inr 6, ?h1, [(0, 1)])"
    by code_simp
  have run2: "solveLinearEquations_s ?h1 2 = (Inr 10, ?h2, [(0, 1)])"
    by code_simp
  have o1: "outcome ?h1 (Inr 6) = Inr [\<lparr>num = 1, den = 1\<rparr>, \<lparr>num = 2, den = 1\<rparr>]"
    by (simp add: outcome_def fracRow_def)
  note d = solver_deterministic [of ?g 0 2 1 1 "\<lparr>num = 1, den = 1\<rparr>" ?h 2
      "[[0, 2, 4], [1, 1, 3]]" "Inr 6" ?h1 "[(0, 1)]" "Inr 10" ?h2 "[(0, 1)]"]
  have hyp: "matrix_at ?h 2 [[0, 2, 4], [1, 1, 3]] \<and>
             solveLinearEquations_s ?h 2 = (Inr 6, ?h1, [(0, 1)]) \<and>
             solveLinearEquations_s ?h1 2 = (Inr 10, ?h2, [(0, 1)])"
    using m run1 run2 by (intro conjI)
  have hyp1: "findPivot ?g 0 [0..<2] = Inr 1 \<and> (0::nat) \<le> 1 \<and> (1::nat) < 2 \<and>
              cell ?g 1 0 = Some \<lparr>num = 1, den = 1\<rparr> \<and> num \<lparr>num = 1, den = 1\<rparr> \<noteq> 0"
    using fp c by simp
  have low: "\<exists>f'. cell ?g 1 0 = Some f' \<and> num f' \<noteq> 0"
    using d [THEN conjunct1, THEN mp, OF hyp1] by (elim conjE)
  note res = d [THEN conjunct2, THEN mp, OF hyp]
  from res have "outcome ?h1 (Inr 6) = solveLinearEquations [[0, 2, 4], [1, 1, 3]] \<and>
                 [(0, 1)] = solveSwaps [[0, 2, 4], [1, 1, 3]]"
    by (elim conjE) (intro conjI)
  then have "solveLinearEquations [[0, 2, 4], [1, 1, 3]] =
               Inr [\<lparr>num = 1, den = 1\<rparr>, \<lparr>num = 2, den = 1\<rparr>]"
    and "solveSwaps [[0, 2, 4], [1, 1, 3]] = [(0, 1)]"
    using o1 by simp_all
  with fp c m run1 run2 low show ?thesis by (intro conjI)
qed

end
